theory Spec2Isabelle
  imports Complex_Main
begin

section \<open>Vectors\<close>

text \<open>
  The source works with \<^verbatim>\<open>mathutils.Vector\<close> values of three floats. They are
  modelled as triples of reals: floating-point rounding is idealised away, so an
  equation proved here is the exact law that the floats follow up to tolerance.
\<close>

type_synonym vec = "real \<times> real \<times> real"

definition vec_add :: "vec \<Rightarrow> vec \<Rightarrow> vec" where
  "vec_add = (\<lambda>(a1, a2, a3) (b1, b2, b3). (a1 + b1, a2 + b2, a3 + b3))"

definition vec_sub :: "vec \<Rightarrow> vec \<Rightarrow> vec" where
  "vec_sub = (\<lambda>(a1, a2, a3) (b1, b2, b3). (a1 - b1, a2 - b2, a3 - b3))"

definition vec_scale :: "real \<Rightarrow> vec \<Rightarrow> vec" where
  "vec_scale k = (\<lambda>(a1, a2, a3). (k * a1, k * a2, k * a3))"

definition vec_div :: "vec \<Rightarrow> real \<Rightarrow> vec" where
  "vec_div = (\<lambda>(a1, a2, a3) k. (a1 / k, a2 / k, a3 / k))"

definition vec_dot :: "vec \<Rightarrow> vec \<Rightarrow> real" where
  "vec_dot = (\<lambda>(a1, a2, a3) (b1, b2, b3). a1 * b1 + a2 * b2 + a3 * b3)"

definition vec_cross :: "vec \<Rightarrow> vec \<Rightarrow> vec" where
  "vec_cross = (\<lambda>(a1, a2, a3) (b1, b2, b3).
     (a2 * b3 - a3 * b2, a3 * b1 - a1 * b3, a1 * b2 - a2 * b1))"

definition vec_length :: "vec \<Rightarrow> real" where
  "vec_length a = sqrt (vec_dot a a)"

text \<open>
  \<^verbatim>\<open>Vector.normalize()\<close> and \<^verbatim>\<open>Vector.normalized()\<close> scale a vector to unit
  length and leave a vector of length zero as the zero vector.
\<close>

definition normalized :: "vec \<Rightarrow> vec" where
  "normalized a = (if vec_length a = 0 then (0, 0, 0) else vec_div a (vec_length a))"

section \<open>The mesh\<close>

text \<open>
  A \<^verbatim>\<open>BMLoop\<close> (half-edge) is identified by a natural number; the attributes the
  source reads from a loop are functions of that identity: \<open>loop_vert\<close> is
  \<^verbatim>\<open>loop.vert.index\<close>, \<open>loop_edge\<close> is \<^verbatim>\<open>loop.edge.index\<close> and \<open>calc_normal\<close>
  the vector that the host returns for \<^verbatim>\<open>loop.calc_normal()\<close>. \<open>link_loops\<close> of a loop
  lists the loops of the other faces around the loop's edge (the loop itself excluded),
  so it is empty exactly on a boundary edge; \<open>edge_link_loops\<close> of an edge lists all
  loops around the edge. \<open>vert_co\<close> gives the coordinates of a vertex by its index, the
  same for the mesh data (\<^verbatim>\<open>obj.vertices[i].co\<close>) and for the loops
  (\<^verbatim>\<open>loop.vert.co\<close>); a face is the list of its loops.
\<close>

record edge =
  vertices :: "nat \<times> nat"
  edge_link_loops :: "nat list"

record mesh =
  vert_co :: "nat \<Rightarrow> vec"
  edges :: "edge list"
  faces :: "nat list list"
  link_loop_next :: "nat \<Rightarrow> nat"
  link_loop_prev :: "nat \<Rightarrow> nat"
  link_loops :: "nat \<Rightarrow> nat list"
  loop_vert :: "nat \<Rightarrow> nat"
  loop_edge :: "nat \<Rightarrow> nat"
  calc_normal :: "nat \<Rightarrow> vec"

datatype twist = TWIST_CW | STRAIGHT | TWIST_CCW | IGNORE

fun get_celtic_twists_loop :: "edge list \<Rightarrow> twist list \<Rightarrow> twist list" where
  "get_celtic_twists_loop [] twists = twists"
| "get_celtic_twists_loop (e # es) twists =
     (if length (edge_link_loops e) = 0
      then get_celtic_twists_loop es (twists @ [IGNORE])
      else get_celtic_twists_loop es (twists @ [TWIST_CW]))"

definition get_celtic_twists :: "mesh \<Rightarrow> twist list" where
  "get_celtic_twists bm = get_celtic_twists_loop (edges bm) []"

section \<open>Configuration and traversal state\<close>

datatype handle_kind = AUTO | ALIGNED

record config =
  crossing_angle :: real
  crossing_strength :: real
  handle_type :: handle_kind
  weave_up :: real
  weave_down :: real

datatype error = AssertionError | IndexError

text \<open>
  The two \<^verbatim>\<open>defaultdict(lambda: False)\<close> maps are total functions that start
  constantly false. The \<open>trace\<close> field is a log kept for stating the claims: every
  assignment \<^verbatim>\<open>loops_exited[loop] = True\<close> appends \<open>Exited loop\<close>, every
  assignment \<^verbatim>\<open>loops_entered[loop] = True\<close> appends \<open>Entered loop\<close>, and every
  \<^verbatim>\<open>cos.extend(midpoint)\<close> appends \<open>Point prev_loop loop forward\<close>.

  A spline holds what \<^verbatim>\<open>foreach_set\<close> stores in it at the end of \<^verbatim>\<open>make_loop\<close>:
  the list \<^verbatim>\<open>cos\<close> (here \<open>cos_list\<close>, one vector per control point where the source
  appends its three coordinates) and the two lists of handles, which stay empty when the
  handle type is \<open>AUTO\<close>. \<open>bezier_points\<close> counts the points of the spline.
\<close>

datatype event = Exited nat | Entered nat | Point nat nat bool

record spline =
  use_cyclic_u :: bool
  bezier_points :: nat
  cos_list :: "vec list"
  handle_lefts :: "vec list"
  handle_rights :: "vec list"

record state =
  loops_entered :: "nat \<Rightarrow> bool"
  loops_exited :: "nat \<Rightarrow> bool"
  splines :: "spline list"
  trace :: "event list"

definition set_exited :: "nat \<Rightarrow> state \<Rightarrow> state" where
  "set_exited loop st =
     st\<lparr>loops_exited := (loops_exited st)(loop := True), trace := trace st @ [Exited loop]\<rparr>"

definition set_entered :: "nat \<Rightarrow> state \<Rightarrow> state" where
  "set_entered loop st =
     st\<lparr>loops_entered := (loops_entered st)(loop := True), trace := trace st @ [Entered loop]\<rparr>"

definition ignorable_loop :: "mesh \<Rightarrow> nat \<Rightarrow> bool" where
  "ignorable_loop bm loop = (length (link_loops bm loop) = 0)"

section \<open>The traversal\<close>

text \<open>The two inner \<^verbatim>\<open>while True\<close> walks around a face. They may run forever,
  which is the value \<open>None\<close>.\<close>

partial_function (option) walk_next :: "mesh \<Rightarrow> nat \<Rightarrow> nat option" where
  "walk_next bm loop =
     (let loop' = link_loop_next bm loop
      in if \<not> ignorable_loop bm loop' then Some loop' else walk_next bm loop')"

partial_function (option) walk_prev :: "mesh \<Rightarrow> nat \<Rightarrow> (nat \<times> nat) option" where
  "walk_prev bm loop =
     (let v = loop_vert bm loop; loop' = link_loop_prev bm loop
      in if \<not> ignorable_loop bm loop' then Some (v, loop') else walk_prev bm loop')"

text \<open>One pass through lines 103--132 of the main loop: either the closure check
  fires (\<open>Break\<close>), or the walk crosses an edge and yields the marked state,
  \<open>prev_loop\<close>, the landing loop and the recomputed direction.\<close>

datatype step_result = Break | Continue state nat nat bool

definition traverse_step :: "mesh \<Rightarrow> state \<Rightarrow> nat \<Rightarrow> bool \<Rightarrow> (error + step_result) option" where
  "traverse_step bm st loop forward =
     (if forward then
        if loops_exited st loop then Some (Inr Break)
        else
          let st1 = set_exited loop st in
          case walk_next bm loop of
            None \<Rightarrow> None
          | Some loop1 \<Rightarrow>
              if loops_entered st1 loop1 \<noteq> False then Some (Inl AssertionError)
              else
                let st2 = set_entered loop1 st1;
                    v = loop_vert bm loop1;
                    prev_loop = loop1
                in case link_loops bm loop1 of
                     [] \<Rightarrow> Some (Inl IndexError)
                   | r # rs \<Rightarrow>
                       if \<not> (r \<noteq> loop1) then Some (Inl AssertionError)
                       else Some (Inr (Continue st2 prev_loop r (loop_vert bm r = v)))
      else
        if loops_entered st loop then Some (Inr Break)
        else
          let st1 = set_entered loop st in
          case walk_prev bm loop of
            None \<Rightarrow> None
          | Some (v, loop1) \<Rightarrow>
              if loops_exited st1 loop1 \<noteq> False then Some (Inl AssertionError)
              else
                let st2 = set_exited loop1 st1;
                    prev_loop = loop1
                in if link_loops bm loop1 = [] then Some (Inl IndexError)
                   else
                     let r = last (link_loops bm loop1)
                     in if \<not> (r \<noteq> loop1) then Some (Inl AssertionError)
                        else Some (Inr (Continue st2 prev_loop r (loop_vert bm r = v))))"

section \<open>The geometry of a crossing\<close>

text \<open>Lines 73--78: the midpoint of every edge, in the order of the edges.\<close>

fun midpoints_loop :: "mesh \<Rightarrow> edge list \<Rightarrow> vec list \<Rightarrow> vec list" where
  "midpoints_loop obj [] midpoints = midpoints"
| "midpoints_loop obj (e # es) midpoints =
     (let v1 = vert_co obj (fst (vertices e));
          v2 = vert_co obj (snd (vertices e));
          m = vec_div (vec_add v1 v2) 2
      in midpoints_loop obj es (midpoints @ [m]))"

text \<open>Lines 143--146: the tangent and binormal of the handles.\<close>

definition handle_frame :: "mesh \<Rightarrow> vec \<Rightarrow> nat \<Rightarrow> bool \<Rightarrow> vec \<times> vec" where
  "handle_frame bm normal loop forward =
     (let tangent = vec_sub (vert_co bm (loop_vert bm (link_loop_next bm loop)))
                            (vert_co bm (loop_vert bm loop));
          tangent = normalized tangent;
          binormal = normalized (vec_cross normal tangent);
          tangent = (if \<not> forward then vec_scale (- 1) tangent else tangent)
      in (tangent, binormal))"

text \<open>Lines 136--152: the position of the control point and, unless the handle type
  is \<open>AUTO\<close>, its two handles.\<close>

definition crossing_point ::
  "mesh \<Rightarrow> config \<Rightarrow> vec list \<Rightarrow> nat \<Rightarrow> nat \<Rightarrow> bool \<Rightarrow> error + (vec \<times> (vec \<times> vec) option)" where
  "crossing_point bm cfg midpoints prev_loop loop forward =
     (let s = sin (crossing_angle cfg) * crossing_strength cfg;
          c = cos (crossing_angle cfg) * crossing_strength cfg
      in if \<not> loop_edge bm loop < length midpoints then Inl IndexError
         else
           let midpoint = midpoints ! loop_edge bm loop;
               normal = vec_add (calc_normal bm loop) (calc_normal bm prev_loop);
               normal = normalized normal;
               offset = (if forward then weave_up cfg else weave_down cfg);
               midpoint = vec_add midpoint (vec_scale offset normal)
           in if handle_type cfg \<noteq> AUTO then
                let (tangent, binormal) = handle_frame bm normal loop forward;
                    s_binormal = vec_scale s binormal;
                    c_tangent = vec_scale c tangent;
                    handle_left = vec_sub (vec_sub midpoint s_binormal) c_tangent;
                    handle_right = vec_add (vec_add midpoint s_binormal) c_tangent
                in Inr (midpoint, Some (handle_left, handle_right))
              else Inr (midpoint, None))"

section \<open>Building one spline\<close>

definition emit :: "vec \<times> (vec \<times> vec) option \<Rightarrow> bool \<Rightarrow> spline \<Rightarrow> spline" where
  "emit p first sp =
     (let sp1 = (if \<not> first then sp\<lparr>bezier_points := bezier_points sp + 1\<rparr> else sp);
          sp2 = sp1\<lparr>cos_list := cos_list sp1 @ [fst p]\<rparr>
      in case snd p of
           None \<Rightarrow> sp2
         | Some (handle_left, handle_right) \<Rightarrow>
             sp2\<lparr>handle_lefts := handle_lefts sp2 @ [handle_left],
                 handle_rights := handle_rights sp2 @ [handle_right]\<rparr>)"

partial_function (option) make_loop_while ::
  "mesh \<Rightarrow> config \<Rightarrow> vec list \<Rightarrow> state \<Rightarrow> nat \<Rightarrow> bool \<Rightarrow> bool \<Rightarrow> spline
     \<Rightarrow> (error + state \<times> spline) option" where
  "make_loop_while bm cfg midpoints st loop forward first sp =
     (case traverse_step bm st loop forward of
        None \<Rightarrow> None
      | Some (Inl e) \<Rightarrow> Some (Inl e)
      | Some (Inr Break) \<Rightarrow> Some (Inr (st, sp))
      | Some (Inr (Continue st' prev_loop loop' forward')) \<Rightarrow>
          (case crossing_point bm cfg midpoints prev_loop loop' forward' of
             Inl e \<Rightarrow> Some (Inl e)
           | Inr p \<Rightarrow>
               make_loop_while bm cfg midpoints
                 (st'\<lparr>trace := trace st' @ [Point prev_loop loop' forward']\<rparr>)
                 loop' forward' False (emit p first sp)))"

text \<open>The main loop (lines 102--152): a step of the traversal, then the new control
  point; \<^verbatim>\<open>bezier_points.add()\<close> is the increment of \<open>bezier_points\<close> in \<open>emit\<close>.
  \<^verbatim>\<open>curve.splines.new("BEZIER")\<close> makes a spline with one bezier point; line 94
  makes it cyclic.\<close>

definition new_spline :: spline where
  "new_spline =
     \<lparr>use_cyclic_u = True, bezier_points = 1, cos_list = [],
      handle_lefts = [], handle_rights = []\<rparr>"

definition make_loop ::
  "mesh \<Rightarrow> config \<Rightarrow> vec list \<Rightarrow> state \<Rightarrow> nat \<Rightarrow> bool \<Rightarrow> (error + state) option" where
  "make_loop bm cfg midpoints st loop forward =
     (let current_spline = new_spline
      in case make_loop_while bm cfg midpoints st loop forward True current_spline of
           None \<Rightarrow> None
         | Some (Inl e) \<Rightarrow> Some (Inl e)
         | Some (Inr (st', sp)) \<Rightarrow> Some (Inr (st'\<lparr>splines := splines st' @ [sp]\<rparr>)))"

section \<open>The scan over all faces\<close>

definition seed_loop ::
  "mesh \<Rightarrow> config \<Rightarrow> vec list \<Rightarrow> state \<Rightarrow> nat \<Rightarrow> (error + state) option" where
  "seed_loop bm cfg midpoints st loop =
     (if ignorable_loop bm loop then Some (Inr st)
      else
        case (if \<not> loops_exited st loop then make_loop bm cfg midpoints st loop True
              else Some (Inr st)) of
          None \<Rightarrow> None
        | Some (Inl e) \<Rightarrow> Some (Inl e)
        | Some (Inr st1) \<Rightarrow>
            if \<not> loops_entered st1 loop then make_loop bm cfg midpoints st1 loop False
            else Some (Inr st1))"

fun scan_loops ::
  "mesh \<Rightarrow> config \<Rightarrow> vec list \<Rightarrow> state \<Rightarrow> nat list \<Rightarrow> (error + state) option" where
  "scan_loops bm cfg midpoints st [] = Some (Inr st)"
| "scan_loops bm cfg midpoints st (loop # loops) =
     (case seed_loop bm cfg midpoints st loop of
        None \<Rightarrow> None
      | Some (Inl e) \<Rightarrow> Some (Inl e)
      | Some (Inr st') \<Rightarrow> scan_loops bm cfg midpoints st' loops)"

fun scan_faces ::
  "mesh \<Rightarrow> config \<Rightarrow> vec list \<Rightarrow> state \<Rightarrow> nat list list \<Rightarrow> (error + state) option" where
  "scan_faces bm cfg midpoints st [] = Some (Inr st)"
| "scan_faces bm cfg midpoints st (face # fs) =
     (case scan_loops bm cfg midpoints st face of
        None \<Rightarrow> None
      | Some (Inl e) \<Rightarrow> Some (Inl e)
      | Some (Inr st') \<Rightarrow> scan_faces bm cfg midpoints st' fs)"

definition init_state :: state where
  "init_state =
     \<lparr>loops_entered = (\<lambda>_. False), loops_exited = (\<lambda>_. False), splines = [], trace = []\<rparr>"

text \<open>\<^verbatim>\<open>create_bezier\<close> up to the end of the scan; the result holds the curve's
  splines together with the final visited maps. The host calls that follow the scan
  (adding the object, setting the handle type) do not change the splines.\<close>

definition create_bezier :: "mesh \<Rightarrow> twist list \<Rightarrow> config \<Rightarrow> (error + state) option" where
  "create_bezier bm twists cfg =
     (let midpoints = midpoints_loop bm (edges bm) []
      in scan_faces bm cfg midpoints init_state (faces bm))"

record props = config +
  thickness :: real

text \<open>\<^verbatim>\<open>CelticKnotOperator.execute\<close>: the result is the curve and, when a pipe was
  made from it, the pipe's thickness.\<close>

definition execute :: "mesh \<Rightarrow> props \<Rightarrow> (error + state \<times> real option) option" where
  "execute bm self =
     (let twists = get_celtic_twists bm
      in case create_bezier bm twists (config.truncate self) of
           None \<Rightarrow> None
         | Some (Inl e) \<Rightarrow> Some (Inl e)
         | Some (Inr curve_obj) \<Rightarrow>
             if thickness self > 0 then Some (Inr (curve_obj, Some (thickness self)))
             else Some (Inr (curve_obj, None)))"

section \<open>Example meshes\<close>

text \<open>A helper to write a mesh down: the loop attributes are given as lists indexed by
  the loop's number.\<close>

definition mesh_of ::
  "vec list \<Rightarrow> edge list \<Rightarrow> nat list list \<Rightarrow> nat list \<Rightarrow> nat list \<Rightarrow> nat list list
     \<Rightarrow> nat list \<Rightarrow> nat list \<Rightarrow> vec list \<Rightarrow> mesh" where
  "mesh_of cs es fs nxt prv rad vs eds ns =
     \<lparr>vert_co = (\<lambda>i. cs ! i), edges = es, faces = fs,
      link_loop_next = (\<lambda>l. if l < length nxt then nxt ! l else l),
      link_loop_prev = (\<lambda>l. if l < length prv then prv ! l else l),
      link_loops = (\<lambda>l. if l < length rad then rad ! l else []),
      loop_vert = (\<lambda>l. vs ! l), loop_edge = (\<lambda>l. eds ! l), calc_normal = (\<lambda>l. ns ! l)\<rparr>"

text \<open>
  A flat strip of three triangles \<open>(v0,v1,v2)\<close>, \<open>(v1,v3,v2)\<close>, \<open>(v1,v4,v3)\<close> in the
  plane \<open>z = 0\<close>. Loops 0--2, 3--5 and 6--8 go round the three faces; loops 1 and 5
  share the edge \<open>v1 v2\<close>, loops 3 and 8 the edge \<open>v1 v3\<close>; the other five edges are
  boundary.
\<close>

definition strip :: mesh where
  "strip = mesh_of
     [(0, 0, 0), (1, 0, 0), (0, 1, 0), (1, 1, 0), (2, 1, 0)]
     [\<lparr>vertices = (0, 1), edge_link_loops = [0]\<rparr>,
      \<lparr>vertices = (1, 2), edge_link_loops = [1, 5]\<rparr>,
      \<lparr>vertices = (0, 2), edge_link_loops = [2]\<rparr>,
      \<lparr>vertices = (1, 3), edge_link_loops = [3, 8]\<rparr>,
      \<lparr>vertices = (2, 3), edge_link_loops = [4]\<rparr>,
      \<lparr>vertices = (1, 4), edge_link_loops = [6]\<rparr>,
      \<lparr>vertices = (3, 4), edge_link_loops = [7]\<rparr>]
     [[0, 1, 2], [3, 4, 5], [6, 7, 8]]
     [1, 2, 0, 4, 5, 3, 7, 8, 6]
     [2, 0, 1, 5, 3, 4, 8, 6, 7]
     [[], [5], [], [8], [], [1], [], [], [3]]
     [0, 1, 2, 1, 3, 2, 1, 4, 3]
     [0, 1, 2, 3, 4, 1, 5, 6, 3]
     [(0, 0, 1), (0, 0, 1), (0, 0, 1), (0, 0, 1), (0, 0, 1), (0, 0, 1),
      (0, 0, 1), (0, 0, 1), (0, 0, 1)]"

definition aligned_cfg :: config where
  "aligned_cfg =
     \<lparr>crossing_angle = 0, crossing_strength = 1, handle_type = ALIGNED,
      weave_up = 1, weave_down = - 1\<rparr>"

definition auto_cfg :: config where
  "auto_cfg =
     \<lparr>crossing_angle = 0, crossing_strength = 1, handle_type = AUTO,
      weave_up = 1, weave_down = - 1\<rparr>"

text \<open>
  Two triangles over the same three vertices, wound oppositely: \<open>(v0,v1,v2)\<close> with
  loops 0--2 and normal \<open>(0,0,1)\<close>, and \<open>(v0,v2,v1)\<close> with loops 3--5 and normal
  \<open>(0,0,-1)\<close>. Every edge is shared by the two faces, so the mesh is closed.
\<close>

definition pillow :: mesh where
  "pillow = mesh_of
     [(0, 0, 0), (1, 0, 0), (0, 1, 0)]
     [\<lparr>vertices = (0, 1), edge_link_loops = [0, 5]\<rparr>,
      \<lparr>vertices = (1, 2), edge_link_loops = [1, 4]\<rparr>,
      \<lparr>vertices = (0, 2), edge_link_loops = [2, 3]\<rparr>]
     [[0, 1, 2], [3, 4, 5]]
     [1, 2, 0, 4, 5, 3]
     [2, 0, 1, 5, 3, 4]
     [[5], [4], [3], [2], [1], [0]]
     [0, 1, 2, 0, 2, 1]
     [0, 1, 2, 2, 1, 0]
     [(0, 0, 1), (0, 0, 1), (0, 0, 1), (0, 0, - 1), (0, 0, - 1), (0, 0, - 1)]"

text \<open>
  Three triangles \<open>(v0,v1,v2)\<close>, \<open>(v0,v1,v3)\<close>, \<open>(v0,v1,v4)\<close> that all share the edge
  \<open>v0 v1\<close>: loops 0, 3 and 6 lie on that edge, whose radial cycle is
  \<open>0 \<rightarrow> 3 \<rightarrow> 6 \<rightarrow> 0\<close>, so each of them has two other loops in \<open>link_loops\<close>.
\<close>

definition book :: mesh where
  "book = mesh_of
     [(0, 0, 0), (0, 0, 1), (1, 0, 0), (0, 1, 0), (- 1, 0, 0)]
     [\<lparr>vertices = (0, 1), edge_link_loops = [0, 3, 6]\<rparr>,
      \<lparr>vertices = (1, 2), edge_link_loops = [1]\<rparr>,
      \<lparr>vertices = (0, 2), edge_link_loops = [2]\<rparr>,
      \<lparr>vertices = (1, 3), edge_link_loops = [4]\<rparr>,
      \<lparr>vertices = (0, 3), edge_link_loops = [5]\<rparr>,
      \<lparr>vertices = (1, 4), edge_link_loops = [7]\<rparr>,
      \<lparr>vertices = (0, 4), edge_link_loops = [8]\<rparr>]
     [[0, 1, 2], [3, 4, 5], [6, 7, 8]]
     [1, 2, 0, 4, 5, 3, 7, 8, 6]
     [2, 0, 1, 5, 3, 4, 8, 6, 7]
     [[3, 6], [], [], [6, 0], [], [], [0, 3], [], []]
     [0, 1, 2, 0, 1, 3, 0, 1, 4]
     [0, 1, 2, 0, 3, 4, 0, 5, 6]
     [(0, 1, 0), (0, 1, 0), (0, 1, 0), (- 1, 0, 0), (- 1, 0, 0), (- 1, 0, 0),
      (0, - 1, 0), (0, - 1, 0), (0, - 1, 0)]"

text \<open>Operator properties with a negative crossing strength and a negative thickness.\<close>

definition negative_props :: props where
  "negative_props =
     \<lparr>crossing_angle = 0, crossing_strength = - 1, handle_type = AUTO,
      weave_up = 1, weave_down = - 1, thickness = - 1\<rparr>"

text \<open>Projections of a result, used to state what a run produced.\<close>

definition result_trace :: "(error + state) option \<Rightarrow> (error + event list) option" where
  "result_trace r = map_option (map_sum id trace) r"

definition result_cos :: "(error + state) option \<Rightarrow> (error + vec list list) option" where
  "result_cos r = map_option (map_sum id (\<lambda>st. map cos_list (splines st))) r"

definition finished_trace ::
  "(error + state \<times> real option) option \<Rightarrow> (error + event list \<times> real option) option" where
  "finished_trace r = map_option (map_sum id (\<lambda>(st, pipe). (trace st, pipe))) r"

definition step_marks :: "(error + step_result) option \<Rightarrow> event list" where
  "step_marks r = (case r of Some (Inr (Continue st prev_loop loop forward)) \<Rightarrow> trace st | _ \<Rightarrow> [])"

section \<open>Well-formed meshes and the bookkeeping invariants\<close>

text \<open>
  The invariants of the host's mesh structure that the claims rely on, for a mesh whose
  loops are numbered \<open>0, \<dots>, n - 1\<close>: the links of a loop are loops of the mesh, and
  every loop listed in a \<open>link_loops\<close> has a non-empty \<open>link_loops\<close> itself (the other
  loops around an edge see each other).
\<close>

definition loops_closed :: "mesh \<Rightarrow> nat \<Rightarrow> bool" where
  "loops_closed bm n =
     (\<forall>l<n. link_loop_next bm l < n \<and> link_loop_prev bm l < n \<and>
             (\<forall>r\<in>set (link_loops bm l). r < n \<and> \<not> ignorable_loop bm r))"

text \<open>The loops of a face form a cycle under \<open>link_loop_next\<close> and under
  \<open>link_loop_prev\<close>.\<close>

definition faces_cyclic :: "mesh \<Rightarrow> nat \<Rightarrow> bool" where
  "faces_cyclic bm n =
     (\<forall>l<n. (\<exists>k<n. (link_loop_next bm ^^ Suc k) l = l) \<and>
             (\<exists>k<n. (link_loop_prev bm ^^ Suc k) l = l))"

definition faces_in_range :: "mesh \<Rightarrow> nat \<Rightarrow> bool" where
  "faces_in_range bm n = (\<forall>face\<in>set (faces bm). \<forall>l\<in>set face. l < n)"

fun event_loops :: "event \<Rightarrow> nat list" where
  "event_loops (Exited l) = [l]"
| "event_loops (Entered l) = [l]"
| "event_loops (Point prev_loop loop forward) = [prev_loop, loop]"

text \<open>Each flag is true exactly when it has been assigned once, and was never
  assigned twice.\<close>

definition marks_consistent :: "state \<Rightarrow> bool" where
  "marks_consistent st =
     (\<forall>l. count_list (trace st) (Exited l) = (if loops_exited st l then 1 else 0) \<and>
          count_list (trace st) (Entered l) = (if loops_entered st l then 1 else 0))"

text \<open>Every loop that an assignment or a control point mentions is a loop of the mesh
  that is not ignorable.\<close>

definition trace_ok :: "mesh \<Rightarrow> nat \<Rightarrow> state \<Rightarrow> bool" where
  "trace_ok bm n st =
     (\<forall>e\<in>set (trace st). \<forall>l\<in>set (event_loops e). l < n \<and> \<not> ignorable_loop bm l)"

text \<open>The flags only ever change from false to true, and the trace only grows.\<close>

definition flags_mono :: "state \<Rightarrow> state \<Rightarrow> bool" where
  "flags_mono st st' =
     ((\<forall>l. loops_exited st l \<longrightarrow> loops_exited st' l) \<and>
      (\<forall>l. loops_entered st l \<longrightarrow> loops_entered st' l) \<and>
      (\<exists>t. trace st' = trace st @ t))"

text \<open>The number of (loop, flag) pairs of an \<open>n\<close>-loop mesh that are still false.\<close>

definition unmarked :: "nat \<Rightarrow> state \<Rightarrow> nat" where
  "unmarked n st =
     length (filter (\<lambda>l. \<not> loops_exited st l) [0..<n]) +
     length (filter (\<lambda>l. \<not> loops_entered st l) [0..<n])"

text \<open>The state in which the run on the strip ends.\<close>

definition strip_final :: state where
  "strip_final =
     \<lparr>loops_entered = (\<lambda>_. False)(1 := True, 5 := True, 8 := True, 3 := True),
      loops_exited = (\<lambda>_. False)(1 := True, 3 := True, 8 := True, 5 := True),
      splines =
        [\<lparr>use_cyclic_u = True, bezier_points = 4,
          cos_list = [(1 / 2, 1 / 2, - 1), (1, 1 / 2, 1), (1, 1 / 2, - 1), (1 / 2, 1 / 2, 1)],
          handle_lefts = [], handle_rights = []\<rparr>],
      trace =
        [Exited 1, Entered 1, Point 1 5 False, Entered 5, Exited 3, Point 3 8 True,
         Exited 8, Entered 8, Point 8 3 False, Entered 3, Exited 5, Point 5 1 True]\<rparr>"

text \<open>
  Every control point of a spline, with its handles when the handle type asks for them,
  is the result of \<open>crossing_point\<close> at a crossing that the trace records.
\<close>

definition emitted_from :: "mesh \<Rightarrow> config \<Rightarrow> vec list \<Rightarrow> event list \<Rightarrow> spline \<Rightarrow> bool" where
  "emitted_from bm cfg midpoints tr sp =
     ((handle_type cfg \<noteq> AUTO \<longrightarrow>
         length (handle_lefts sp) = length (cos_list sp) \<and>
         length (handle_rights sp) = length (cos_list sp)) \<and>
      (\<forall>i<length (cos_list sp). \<exists>prev_loop loop forward.
         Point prev_loop loop forward \<in> set tr \<and>
         crossing_point bm cfg midpoints prev_loop loop forward =
           Inr (cos_list sp ! i,
                if handle_type cfg \<noteq> AUTO
                then Some (handle_lefts sp ! i, handle_rights sp ! i) else None)))"

text \<open>The state in which the run on the strip ends when the handles are computed.\<close>

definition strip_aligned_final :: state where
  "strip_aligned_final =
     \<lparr>loops_entered = (\<lambda>_. False)(1 := True, 5 := True, 8 := True, 3 := True),
      loops_exited = (\<lambda>_. False)(1 := True, 3 := True, 8 := True, 5 := True),
      splines =
        [\<lparr>use_cyclic_u = True, bezier_points = 4,
          cos_list = [(1 / 2, 1 / 2, - 1), (1, 1 / 2, 1), (1, 1 / 2, - 1), (1 / 2, 1 / 2, 1)],
          handle_lefts =
            [(1 / 2 + 1 / sqrt 2, 1 / 2 - 1 / sqrt 2, - 1), (1, 3 / 2, 1), (1, 3 / 2, - 1),
             (1 / 2 + 1 / sqrt 2, 1 / 2 - 1 / sqrt 2, 1)],
          handle_rights =
            [(1 / 2 - 1 / sqrt 2, 1 / 2 + 1 / sqrt 2, - 1), (1, - (1 / 2), 1),
             (1, - (1 / 2), - 1), (1 / 2 - 1 / sqrt 2, 1 / 2 + 1 / sqrt 2, 1)]\<rparr>],
      trace =
        [Exited 1, Entered 1, Point 1 5 False, Entered 5, Exited 3, Point 3 8 True,
         Exited 8, Entered 8, Point 8 3 False, Entered 3, Exited 5, Point 5 1 True]\<rparr>"

section \<open>Comparing two runs\<close>

text \<open>Two states agree on the visited maps and on the trace; two results are the same
  outcome when both do not return, both fail with the same error, or both return such
  states.\<close>

definition same_marks :: "state \<Rightarrow> state \<Rightarrow> bool" where
  "same_marks st st' =
     (loops_entered st = loops_entered st' \<and> loops_exited st = loops_exited st' \<and>
      trace st = trace st')"

fun same_outcome :: "(error + state) option \<Rightarrow> (error + state) option \<Rightarrow> bool" where
  "same_outcome None None = True"
| "same_outcome (Some (Inl e)) (Some (Inl e')) = (e = e')"
| "same_outcome (Some (Inr st)) (Some (Inr st')) = same_marks st st'"
| "same_outcome r r' = False"

definition execute_trace ::
  "(error + state \<times> real option) option \<Rightarrow> (error + event list) option" where
  "execute_trace r = map_option (map_sum id (\<lambda>res. trace (fst res))) r"

section \<open>Facts about vectors\<close>

lemmas vec_defs = vec_add_def vec_sub_def vec_scale_def vec_div_def vec_dot_def vec_cross_def

lemma vec_handle_sym:
  "vec_sub (vec_add (vec_add p a) b) p = vec_sub p (vec_sub (vec_sub p a) b)"
  by (cases p; cases a; cases b) (simp add: vec_defs)

lemma vec_sub_add_cancel: "vec_sub (vec_add p a) p = a"
  by (cases p; cases a) (simp add: vec_defs)

lemma vec_length_scale: "vec_length (vec_scale k a) = \<bar>k\<bar> * vec_length a"
proof (cases a)
  case (fields a1 a2 a3)
  have "k * a1 * (k * a1) + k * a2 * (k * a2) + k * a3 * (k * a3)
          = k\<^sup>2 * (a1 * a1 + a2 * a2 + a3 * a3)"
    by (simp add: power2_eq_square algebra_simps)
  then show ?thesis
    by (simp add: fields vec_length_def vec_defs real_sqrt_mult)
qed

lemma vec_length_nonneg: "0 \<le> vec_length a"
  by (cases a) (simp add: vec_length_def vec_defs)

lemma vec_div_scale: "vec_div a k = vec_scale (1 / k) a"
  by (cases a) (simp add: vec_defs)

lemma vec_length_normalized:
  assumes "vec_length a \<noteq> 0"
  shows "vec_length (normalized a) = 1"
proof -
  have "0 < vec_length a"
    using assms vec_length_nonneg [of a] by linarith
  then show ?thesis
    by (simp add: normalized_def vec_div_scale vec_length_scale)
qed

section \<open>Evaluating the examples\<close>

lemmas geometry_defs = crossing_point_def handle_frame_def normalized_def vec_length_def
  vec_defs Let_def

lemmas traversal_defs = traverse_step_def walk_next.simps walk_prev.simps ignorable_loop_def
  set_exited_def set_entered_def Let_def

lemmas run_defs = create_bezier_def init_state_def seed_loop_def make_loop_def new_spline_def
  make_loop_while.simps emit_def traversal_defs geometry_defs

lemmas example_defs = mesh_of_def strip_def pillow_def book_def auto_cfg_def aligned_cfg_def

text \<open>Bounded quantifiers over loop numbers, as computations over \<open>[0..<n]\<close>.\<close>

lemma all_less_list: "(\<forall>l<n. P l) = list_all P [0..<n]"
  by (auto simp: list_all_iff)

lemma ex_less_list: "(\<exists>l<n. P l) = list_ex P [0..<n]"
  by (auto simp: list_ex_iff)

section \<open>The geometry of a crossing: position and handles\<close>

lemma crossing_point_position:
  assumes "crossing_point bm cfg midpoints prev_loop loop forward = Inr (position, handles)"
  shows "loop_edge bm loop < length midpoints \<and>
     position = vec_add (midpoints ! loop_edge bm loop)
       (vec_scale (if forward then weave_up cfg else weave_down cfg)
          (normalized (vec_add (calc_normal bm loop) (calc_normal bm prev_loop))))"
  using assms
  by (auto simp: crossing_point_def Let_def case_prod_beta split: if_splits)

lemma crossing_point_handles:
  assumes "handle_type cfg \<noteq> AUTO"
    and "crossing_point bm cfg midpoints prev_loop loop forward = Inr (position, handles)"
  shows "handles = Some
     (vec_sub (vec_sub position
        (vec_scale (sin (crossing_angle cfg) * crossing_strength cfg)
           (snd (handle_frame bm
             (normalized (vec_add (calc_normal bm loop) (calc_normal bm prev_loop)))
             loop forward))))
        (vec_scale (cos (crossing_angle cfg) * crossing_strength cfg)
           (fst (handle_frame bm
             (normalized (vec_add (calc_normal bm loop) (calc_normal bm prev_loop)))
             loop forward))),
      vec_add (vec_add position
        (vec_scale (sin (crossing_angle cfg) * crossing_strength cfg)
           (snd (handle_frame bm
             (normalized (vec_add (calc_normal bm loop) (calc_normal bm prev_loop)))
             loop forward))))
        (vec_scale (cos (crossing_angle cfg) * crossing_strength cfg)
           (fst (handle_frame bm
             (normalized (vec_add (calc_normal bm loop) (calc_normal bm prev_loop)))
             loop forward))))"
  using assms
  by (auto simp: crossing_point_def Let_def case_prod_beta split: if_splits)

lemma crossing_point_symmetric:
  assumes "handle_type cfg = ALIGNED"
    and "crossing_point bm cfg midpoints prev_loop loop forward = Inr (position, handles)"
  shows "\<exists>handle_left handle_right. handles = Some (handle_left, handle_right) \<and>
           vec_sub handle_right position = vec_sub position handle_left"
proof -
  from assms(1) have "handle_type cfg \<noteq> AUTO" by simp
  from crossing_point_handles [OF this assms(2)] show ?thesis
    by (metis vec_handle_sym)
qed

text \<open>
  Claim C9. The \<open>twists\<close> argument is never consumed: the spline-building routine
  returns the same result, points and handles included, for any two values of it.
\<close>

theorem twists_never_consumed:
  "create_bezier bm twists cfg = create_bezier bm twists' cfg"
  by (simp add: create_bezier_def)


text \<open>
  Claim C3, as the code has it. In \<open>ALIGNED\<close> handle mode, for a step whose recomputed
  direction is backward, the tangent used for the handles is the negation of the
  normalized vector from the head vertex of \<open>loop\<close> to the head vertex of its successor
  in the face, and the binormal is the normalized cross product of the averaged normal
  with the tangent before it is negated.
\<close>

theorem backward_handle_frame:
  assumes "handle_type cfg = ALIGNED"
    and "\<not> forward"
    and "crossing_point bm cfg midpoints prev_loop loop forward = Inr (position, handles)"
  shows "let normal = normalized (vec_add (calc_normal bm loop) (calc_normal bm prev_loop));
             t = normalized (vec_sub (vert_co bm (loop_vert bm (link_loop_next bm loop)))
                                     (vert_co bm (loop_vert bm loop)));
             tangent = vec_scale (- 1) t;
             binormal = normalized (vec_cross normal t);
             s = sin (crossing_angle cfg) * crossing_strength cfg;
             c = cos (crossing_angle cfg) * crossing_strength cfg
         in handle_frame bm normal loop forward = (tangent, binormal) \<and>
            handles = Some
              (vec_sub (vec_sub position (vec_scale s binormal)) (vec_scale c tangent),
               vec_add (vec_add position (vec_scale s binormal)) (vec_scale c tangent))"
proof -
  from assms(1) have "handle_type cfg \<noteq> AUTO" by simp
  from crossing_point_handles [OF this assms(3)] assms(2) show ?thesis
    by (simp add: handle_frame_def Let_def)
qed

theorem backward_handle_frame_witness:
  "handle_type aligned_cfg = ALIGNED \<and> \<not> False \<and>
   crossing_point strip aligned_cfg (midpoints_loop strip (edges strip) []) 8 3 False
     = Inr ((1, 1 / 2, - 1), Some ((1, 3 / 2, - 1), (1, - (1 / 2), - 1))) \<and>
   handle_frame strip
     (normalized (vec_add (calc_normal strip 3) (calc_normal strip 8))) 3 False
     = (vec_scale (- 1) (normalized (vec_sub (vert_co strip (loop_vert strip (link_loop_next strip 3)))
                                             (vert_co strip (loop_vert strip 3)))),
        normalized (vec_cross (normalized (vec_add (calc_normal strip 3) (calc_normal strip 8)))
          (normalized (vec_sub (vert_co strip (loop_vert strip (link_loop_next strip 3)))
                               (vert_co strip (loop_vert strip 3))))))"
proof -
  have h1: "handle_type aligned_cfg = ALIGNED"
    by (simp add: aligned_cfg_def)
  have h2: "\<not> False" by simp
  have h3: "crossing_point strip aligned_cfg (midpoints_loop strip (edges strip) []) 8 3 False
     = Inr ((1, 1 / 2, - 1), Some ((1, 3 / 2, - 1), (1, - (1 / 2), - 1)))"
    by (simp add: geometry_defs example_defs)
  show ?thesis
    using h1 h3 backward_handle_frame [OF h1 h2 h3] by (simp add: Let_def)
qed

text \<open>
  The claim as worded takes the binormal from the negated tangent. On the strip, at the
  crossing from loop 8 to loop 3 (recomputed direction backward, averaged normal
  \<open>(0,0,1)\<close>), the tangent used is \<open>(0,-1,0)\<close> and the binormal used is \<open>(-1,0,0)\<close>,
  whereas the normalized cross product of the normal with the tangent used is
  \<open>(1,0,0)\<close>.
\<close>

theorem backward_binormal_counterexample:
  "handle_frame strip (0, 0, 1) 3 False = ((0, - 1, 0), (- 1, 0, 0)) \<and>
   normalized (vec_cross (0, 0, 1) (fst (handle_frame strip (0, 0, 1) 3 False))) = (1, 0, 0) \<and>
   snd (handle_frame strip (0, 0, 1) 3 False)
     \<noteq> normalized (vec_cross (0, 0, 1) (fst (handle_frame strip (0, 0, 1) 3 False)))"
  by (simp add: geometry_defs example_defs)

lemma crossing_point_displaced:
  assumes "crossing_point bm cfg midpoints prev_loop loop forward = Inr (position, handles)"
  shows "let midpoint = midpoints ! loop_edge bm loop;
             summed = vec_add (calc_normal bm loop) (calc_normal bm prev_loop);
             offset = (if forward then weave_up cfg else weave_down cfg)
         in position = vec_add midpoint (vec_scale offset (normalized summed)) \<and>
            vec_sub position midpoint = vec_scale offset (normalized summed) \<and>
            (vec_length summed \<noteq> 0 \<longrightarrow> vec_length (vec_sub position midpoint) = \<bar>offset\<bar>)"
proof -
  from crossing_point_position [OF assms]
  have pos: "position = vec_add (midpoints ! loop_edge bm loop)
       (vec_scale (if forward then weave_up cfg else weave_down cfg)
          (normalized (vec_add (calc_normal bm loop) (calc_normal bm prev_loop))))"
    by simp
  show ?thesis
    unfolding Let_def pos vec_sub_add_cancel
    by (simp add: vec_length_scale vec_length_normalized)
qed

text \<open>
  On the pillow the normals of the two faces cancel: every control point of the run is
  the midpoint of its edge, at distance 0 from it, although both weave offsets have
  magnitude 1.
\<close>

theorem offset_distance_counterexample:
  "result_cos (create_bezier pillow [] auto_cfg)
     = Some (Inr [[(1 / 2, 1 / 2, 0), (0, 1 / 2, 0), (1 / 2, 0, 0),
                   (1 / 2, 1 / 2, 0), (0, 1 / 2, 0), (1 / 2, 0, 0)]]) \<and>
   crossing_point pillow auto_cfg (midpoints_loop pillow (edges pillow) []) 1 4 False
     = Inr ((1 / 2, 1 / 2, 0), None) \<and>
   midpoints_loop pillow (edges pillow) [] ! loop_edge pillow 4 = (1 / 2, 1 / 2, 0) \<and>
   vec_length (vec_sub (1 / 2, 1 / 2, 0) (1 / 2, 1 / 2, 0)) = 0 \<and>
   \<bar>weave_down auto_cfg\<bar> = 1 \<and> \<bar>weave_up auto_cfg\<bar> = 1"
  by (simp add: result_cos_def run_defs example_defs)


section \<open>The twist classification and the operator\<close>

lemma get_celtic_twists_loop_map:
  "get_celtic_twists_loop es twists =
     twists @ map (\<lambda>e. if length (edge_link_loops e) = 0 then IGNORE else TWIST_CW) es"
  by (induction es arbitrary: twists) simp_all

text \<open>
  Claim C4, as the code has it. No check of the size of a radial list exists: for an
  edge with more than two half-edges \<open>get_celtic_twists\<close> returns normally, with one
  entry per edge, and records \<open>TWIST_CW\<close> for that edge as for any edge that has a face.
\<close>

theorem twists_of_shared_edge:
  assumes "i < length (edges bm)"
    and "2 < length (edge_link_loops (edges bm ! i))"
  shows "length (get_celtic_twists bm) = length (edges bm) \<and>
         get_celtic_twists bm ! i = TWIST_CW"
  using assms by (auto simp: get_celtic_twists_def get_celtic_twists_loop_map)

theorem twists_of_shared_edge_witness:
  "0 < length (edges book) \<and> 2 < length (edge_link_loops (edges book ! 0)) \<and>
   length (get_celtic_twists book) = length (edges book) \<and>
   get_celtic_twists book ! 0 = TWIST_CW"
proof -
  have h1: "0 < length (edges book)"
    by (simp add: example_defs)
  have h2: "2 < length (edge_link_loops (edges book ! 0))"
    by (simp add: example_defs)
  show ?thesis
    using h1 h2 twists_of_shared_edge [OF h1 h2] by blast
qed

text \<open>
  On the book, whose edge 0 is shared by three faces (loops 0, 3 and 6), the run does
  not fail: it returns one spline with the three crossings \<open>0 \<rightarrow> 3 \<rightarrow> 6 \<rightarrow> 0\<close>.
\<close>

theorem book_not_rejected:
  "edge_link_loops (edges book ! 0) = [0, 3, 6] \<and> link_loops book 0 = [3, 6] \<and>
   result_trace (create_bezier book (get_celtic_twists book) auto_cfg)
     = Some (Inr [Exited 0, Entered 0, Point 0 3 True, Exited 3, Entered 3, Point 3 6 True,
                  Exited 6, Entered 6, Point 6 0 True]) \<and>
   result_cos (create_bezier book (get_celtic_twists book) auto_cfg)
     = Some (Inr [[(- (1 / sqrt 2), 1 / sqrt 2, 1 / 2),
                   (- (1 / sqrt 2), - (1 / sqrt 2), 1 / 2), (0, 0, 1 / 2)]])"
  by (simp add: result_trace_def result_cos_def run_defs example_defs)

section \<open>One step of the traversal\<close>

lemma walk_next_result:
  assumes "walk_next bm loop = Some y"
  shows "\<not> ignorable_loop bm y"
  by (rule walk_next.raw_induct [where P = "\<lambda>bm loop y. \<not> ignorable_loop bm y", OF _ assms])
     (auto simp: Let_def split: if_splits)

lemma walk_prev_result:
  assumes "walk_prev bm loop = Some y"
  shows "\<not> ignorable_loop bm (snd y) \<and>
     (\<exists>x. link_loop_prev bm x = snd y \<and> fst y = loop_vert bm x)"
  by (rule walk_prev.raw_induct [where P = "\<lambda>bm loop y. \<not> ignorable_loop bm (snd y) \<and>
       (\<exists>x. link_loop_prev bm x = snd y \<and> fst y = loop_vert bm x)", OF _ assms])
     (auto simp: Let_def split: if_splits)

lemma walk_prev_source:
  assumes "walk_prev bm loop = Some y"
    and "\<forall>x<n. link_loop_prev bm x < n" and "loop < n"
  shows "\<exists>x<n. link_loop_prev bm x = snd y \<and> fst y = loop_vert bm x"
proof -
  have "bm = bm \<longrightarrow> loop < n \<longrightarrow> (\<exists>x<n. link_loop_prev bm x = snd y \<and> fst y = loop_vert bm x)"
    by (rule walk_prev.raw_induct [where P = "\<lambda>bm' loop y. bm' = bm \<longrightarrow> loop < n \<longrightarrow>
          (\<exists>x<n. link_loop_prev bm x = snd y \<and> fst y = loop_vert bm x)", OF _ assms(1)])
       (use assms(2) in \<open>auto simp: Let_def split: if_splits\<close>)
  with assms(3) show ?thesis by simp
qed

lemma forward_step_cases:
  assumes "traverse_step bm st loop True = Some (Inr (Continue st' prev_loop loop' forward'))"
  shows "\<not> loops_exited st loop \<and> walk_next bm loop = Some prev_loop \<and>
         \<not> loops_entered (set_exited loop st) prev_loop \<and>
         st' = set_entered prev_loop (set_exited loop st) \<and>
         link_loops bm prev_loop \<noteq> [] \<and> loop' = hd (link_loops bm prev_loop) \<and>
         loop' \<noteq> prev_loop \<and>
         forward' = (loop_vert bm loop' = loop_vert bm prev_loop)"
  using assms
  by (auto simp: traverse_step_def Let_def split: if_splits option.splits list.splits)

lemma backward_step_cases:
  assumes "traverse_step bm st loop False = Some (Inr (Continue st' prev_loop loop' forward'))"
  shows "\<not> loops_entered st loop \<and>
         (\<exists>v. walk_prev bm loop = Some (v, prev_loop) \<and>
               forward' = (loop_vert bm loop' = v)) \<and>
         \<not> loops_exited (set_entered loop st) prev_loop \<and>
         st' = set_exited prev_loop (set_entered loop st) \<and>
         link_loops bm prev_loop \<noteq> [] \<and> loop' = last (link_loops bm prev_loop) \<and>
         loop' \<noteq> prev_loop"
  using assms
  by (auto simp: traverse_step_def Let_def split: if_splits option.splits prod.splits)

lemma backward_step_break:
  "(traverse_step bm st loop False = Some (Inr Break)) = loops_entered st loop"
  by (auto simp: traverse_step_def Let_def split: if_splits option.splits prod.splits)

lemma forward_step_break:
  "(traverse_step bm st loop True = Some (Inr Break)) = loops_exited st loop"
  by (auto simp: traverse_step_def Let_def split: if_splits option.splits list.splits)

text \<open>
  Claim C2, as the code has it. In the backward step the closure check reads
  \<open>loops_entered[loop]\<close>; right after the check, before the walk along
  \<open>link_loop_prev\<close>, the flag set on the current loop is \<open>loops_entered[loop]\<close>; after
  the walk \<open>loops_exited\<close> of the loop reached is asserted false and set. These are the
  only two assignments of the step.
\<close>

theorem backward_step_marks:
  "(traverse_step bm st loop False = Some (Inr Break)) = loops_entered st loop \<and>
   (traverse_step bm st loop False = Some (Inr (Continue st' prev_loop loop' forward')) \<longrightarrow>
      \<not> loops_entered st loop \<and>
      (\<exists>v. walk_prev bm loop = Some (v, prev_loop)) \<and>
      \<not> loops_exited (set_entered loop st) prev_loop \<and>
      st' = set_exited prev_loop (set_entered loop st) \<and>
      trace st' = trace st @ [Entered loop, Exited prev_loop])"
proof (intro conjI impI)
  show "(traverse_step bm st loop False = Some (Inr Break)) = loops_entered st loop"
    by (rule backward_step_break)
next
  assume a: "traverse_step bm st loop False = Some (Inr (Continue st' prev_loop loop' forward'))"
  from backward_step_cases [OF a]
  show "\<not> loops_entered st loop" and "\<exists>v. walk_prev bm loop = Some (v, prev_loop)"
    and "\<not> loops_exited (set_entered loop st) prev_loop"
    and "st' = set_exited prev_loop (set_entered loop st)"
    and "trace st' = trace st @ [Entered loop, Exited prev_loop]"
    by (auto simp: set_exited_def set_entered_def)
qed

theorem backward_step_marks_witness:
  "traverse_step strip init_state 5 False
     = Some (Inr (Continue (set_exited 3 (set_entered 5 init_state)) 3 8 True)) \<and>
   \<not> loops_entered init_state 5 \<and>
   trace (set_exited 3 (set_entered 5 init_state)) = trace init_state @ [Entered 5, Exited 3]"
proof -
  have h: "traverse_step strip init_state 5 False
     = Some (Inr (Continue (set_exited 3 (set_entered 5 init_state)) 3 8 True))"
    by (simp add: traversal_defs example_defs init_state_def)
  show ?thesis
    using h backward_step_marks [of strip init_state 5 "set_exited 3 (set_entered 5 init_state)" 3 8 True]
    by blast
qed

text \<open>
  The claim as worded has \<open>loops_exited\<close> of the current loop set right after the
  check. On the strip, the backward step from loop 5 makes exactly the assignments
  \<open>loops_entered[5] = True\<close> and then \<open>loops_exited[3] = True\<close>.
\<close>

theorem backward_step_marks_counterexample:
  "step_marks (traverse_step strip init_state 5 False) = [Entered 5, Exited 3]"
  by (simp add: step_marks_def traversal_defs example_defs init_state_def)

text \<open>
  Claim C10. After the forward step the direction is recomputed by comparing the head
  vertex of the landing loop with the head vertex of the crossed loop \<open>prev_loop\<close>
  itself. After the backward step it is compared with the head vertex recorded just
  before the last step along \<open>link_loop_prev\<close>, the head vertex of a loop \<open>x\<close> whose
  predecessor is \<open>prev_loop\<close>; in a mesh of \<open>n\<close> loops where \<open>link_loop_next\<close> undoes
  \<open>link_loop_prev\<close> that is the head vertex of the successor of \<open>prev_loop\<close> in its
  face.
\<close>

theorem direction_vertex:
  "(traverse_step bm st loop True = Some (Inr (Continue st' prev_loop loop' forward')) \<longrightarrow>
      loop' = hd (link_loops bm prev_loop) \<and>
      forward' = (loop_vert bm loop' = loop_vert bm prev_loop)) \<and>
   (traverse_step bm st loop False = Some (Inr (Continue st' prev_loop loop' forward')) \<longrightarrow>
      loop' = last (link_loops bm prev_loop) \<and>
      (\<exists>x. link_loop_prev bm x = prev_loop \<and>
           walk_prev bm loop = Some (loop_vert bm x, prev_loop) \<and>
           forward' = (loop_vert bm loop' = loop_vert bm x)) \<and>
      (loop < n \<and>
       (\<forall>x<n. link_loop_prev bm x < n \<and> link_loop_next bm (link_loop_prev bm x) = x) \<longrightarrow>
         forward' = (loop_vert bm loop' = loop_vert bm (link_loop_next bm prev_loop))))"
proof (intro conjI impI)
  assume a: "traverse_step bm st loop True = Some (Inr (Continue st' prev_loop loop' forward'))"
  from forward_step_cases [OF a]
  show "loop' = hd (link_loops bm prev_loop)"
    and "forward' = (loop_vert bm loop' = loop_vert bm prev_loop)"
    by simp_all
next
  assume a: "traverse_step bm st loop False = Some (Inr (Continue st' prev_loop loop' forward'))"
  from backward_step_cases [OF a] obtain v where
    w: "walk_prev bm loop = Some (v, prev_loop)" and f: "forward' = (loop_vert bm loop' = v)"
    and l: "loop' = last (link_loops bm prev_loop)"
    by blast
  from walk_prev_result [OF w] obtain x where
    x: "link_loop_prev bm x = prev_loop" "v = loop_vert bm x"
    by auto
  show "loop' = last (link_loops bm prev_loop)" by (rule l)
  show "\<exists>x. link_loop_prev bm x = prev_loop \<and>
           walk_prev bm loop = Some (loop_vert bm x, prev_loop) \<and>
           forward' = (loop_vert bm loop' = loop_vert bm x)"
    using w f x by blast
  assume b: "loop < n \<and>
       (\<forall>x<n. link_loop_prev bm x < n \<and> link_loop_next bm (link_loop_prev bm x) = x)"
  then have "\<forall>x<n. link_loop_prev bm x < n" by simp
  from walk_prev_source [OF w this] b obtain y where
    y: "y < n" "link_loop_prev bm y = prev_loop" "v = loop_vert bm y"
    by auto
  from b y(1) have "link_loop_next bm (link_loop_prev bm y) = y" by simp
  with y(2) have "link_loop_next bm prev_loop = y" by simp
  then show "forward' = (loop_vert bm loop' = loop_vert bm (link_loop_next bm prev_loop))"
    using f y(3) by simp
qed

theorem direction_vertex_witness:
  "traverse_step strip init_state 1 True
     = Some (Inr (Continue (set_entered 1 (set_exited 1 init_state)) 1 5 False)) \<and>
   5 = hd (link_loops strip 1) \<and> False = (loop_vert strip 5 = loop_vert strip 1) \<and>
   traverse_step strip init_state 3 False
     = Some (Inr (Continue (set_exited 5 (set_entered 3 init_state)) 5 1 True)) \<and>
   3 < (9::nat) \<and>
   list_all (\<lambda>x. link_loop_prev strip x < 9 \<and> link_loop_next strip (link_loop_prev strip x) = x)
     [0..<9] \<and>
   1 = last (link_loops strip 5) \<and>
   True = (loop_vert strip 1 = loop_vert strip (link_loop_next strip 5))"
proof -
  have f: "traverse_step strip init_state 1 True
     = Some (Inr (Continue (set_entered 1 (set_exited 1 init_state)) 1 5 False))"
    by (simp add: traversal_defs example_defs init_state_def)
  have b: "traverse_step strip init_state 3 False
     = Some (Inr (Continue (set_exited 5 (set_entered 3 init_state)) 5 1 True))"
    by (simp add: traversal_defs example_defs init_state_def)
  have inv: "\<forall>x<9. link_loop_prev strip x < 9 \<and>
      link_loop_next strip (link_loop_prev strip x) = x"
    unfolding all_less_list by (simp add: example_defs upt_conv_Cons)
  have n: "3 < (9::nat)" by simp
  show ?thesis
    using f b inv inv [unfolded all_less_list] n
      direction_vertex [of strip init_state 1 "set_entered 1 (set_exited 1 init_state)" 1 5 False]
      direction_vertex [of strip init_state 3 "set_exited 5 (set_entered 3 init_state)" 5 1 True 9]
    by blast
qed


section \<open>Induction over the main loop\<close>

text \<open>
  A property of every run of the main loop that returns follows from two cases: the run
  that stops at once because the closure check fires, and the run that makes one
  crossing, emits its point and continues.
\<close>

lemma make_loop_while_induct [consumes 1, case_names Break Continue]:
  assumes run: "make_loop_while bm cfg mids st loop fwd first sp = Some (Inr (st', sp'))"
    and brk: "\<And>st loop fwd first sp.
        traverse_step bm st loop fwd = Some (Inr Break) \<Longrightarrow> P st loop fwd first sp st sp"
    and cont: "\<And>st loop fwd first sp st1 p l f pt st' sp'.
        traverse_step bm st loop fwd = Some (Inr (Continue st1 p l f)) \<Longrightarrow>
        crossing_point bm cfg mids p l f = Inr pt \<Longrightarrow>
        P (st1\<lparr>trace := trace st1 @ [Point p l f]\<rparr>) l f False (emit pt first sp) st' sp' \<Longrightarrow>
        P st loop fwd first sp st' sp'"
  shows "P st loop fwd first sp st' sp'"
proof -
  have "bm = bm \<longrightarrow> cfg = cfg \<longrightarrow> mids = mids \<longrightarrow>
          (\<forall>a b. (Inr (st', sp') :: error + state \<times> spline) = Inr (a, b) \<longrightarrow>
             P st loop fwd first sp a b)"
    by (rule make_loop_while.raw_induct [where P = "\<lambda>bm' cfg' mids' st loop fwd first sp y.
          bm' = bm \<longrightarrow> cfg' = cfg \<longrightarrow> mids' = mids \<longrightarrow>
          (\<forall>a b. y = Inr (a, b) \<longrightarrow> P st loop fwd first sp a b)", OF _ run])
       (auto split: option.splits sum.splits step_result.splits intro: brk cont)
  then show ?thesis by simp
qed

section \<open>Bookkeeping of the visited maps\<close>

lemma marks_consistent_set_exited:
  "marks_consistent st \<Longrightarrow> \<not> loops_exited st l \<Longrightarrow> marks_consistent (set_exited l st)"
  by (auto simp: marks_consistent_def set_exited_def)

lemma marks_consistent_set_entered:
  "marks_consistent st \<Longrightarrow> \<not> loops_entered st l \<Longrightarrow> marks_consistent (set_entered l st)"
  by (auto simp: marks_consistent_def set_entered_def)

lemma marks_consistent_point:
  "marks_consistent (st\<lparr>trace := trace st @ [Point p l f]\<rparr>) = marks_consistent st"
  by (simp add: marks_consistent_def)

lemma marks_consistent_splines:
  "marks_consistent (st\<lparr>splines := s\<rparr>) = marks_consistent st"
  by (simp add: marks_consistent_def)

lemma flags_mono_refl: "flags_mono st st"
  by (simp add: flags_mono_def)

lemma flags_mono_trans: "flags_mono a b \<Longrightarrow> flags_mono b c \<Longrightarrow> flags_mono a c"
  by (auto simp: flags_mono_def)

lemma flags_mono_set_exited: "flags_mono st (set_exited l st)"
  by (simp add: flags_mono_def set_exited_def)

lemma flags_mono_set_entered: "flags_mono st (set_entered l st)"
  by (simp add: flags_mono_def set_entered_def)

lemma flags_mono_point: "flags_mono st (st\<lparr>trace := trace st @ [Point p l f]\<rparr>)"
  by (simp add: flags_mono_def)

lemma flags_mono_splines: "flags_mono st (st\<lparr>splines := s\<rparr>)"
  by (simp add: flags_mono_def)

lemma step_marks_consistent:
  assumes "traverse_step bm st loop fwd = Some (Inr (Continue st1 p l f))"
    and "marks_consistent st"
  shows "marks_consistent st1 \<and> flags_mono st st1 \<and> splines st1 = splines st \<and>
         length (trace st1) = length (trace st) + 2 \<and>
         (if fwd then loops_exited st1 loop else loops_entered st1 loop)"
proof (cases fwd)
  case True
  with assms(1) have s: "traverse_step bm st loop True = Some (Inr (Continue st1 p l f))"
    by simp
  from forward_step_cases [OF s] have
    a: "\<not> loops_exited st loop" and b: "\<not> loops_entered (set_exited loop st) p"
    and c: "st1 = set_entered p (set_exited loop st)"
    by simp_all
  have "marks_consistent st1"
    unfolding c using assms(2) a b
    by (intro marks_consistent_set_entered marks_consistent_set_exited)
  moreover have "flags_mono st st1"
    unfolding c by (rule flags_mono_trans [OF flags_mono_set_exited flags_mono_set_entered])
  moreover have "splines st1 = splines st" "length (trace st1) = length (trace st) + 2"
    and "loops_exited st1 loop"
    unfolding c by (simp_all add: set_entered_def set_exited_def)
  ultimately show ?thesis using True by simp
next
  case False
  with assms(1) have s: "traverse_step bm st loop False = Some (Inr (Continue st1 p l f))"
    by simp
  from backward_step_cases [OF s] have
    a: "\<not> loops_entered st loop" and b: "\<not> loops_exited (set_entered loop st) p"
    and c: "st1 = set_exited p (set_entered loop st)"
    by simp_all
  have "marks_consistent st1"
    unfolding c using assms(2) a b
    by (intro marks_consistent_set_entered marks_consistent_set_exited)
  moreover have "flags_mono st st1"
    unfolding c by (rule flags_mono_trans [OF flags_mono_set_entered flags_mono_set_exited])
  moreover have "splines st1 = splines st" "length (trace st1) = length (trace st) + 2"
    and "loops_entered st1 loop"
    unfolding c by (simp_all add: set_entered_def set_exited_def)
  ultimately show ?thesis using False by simp
qed

lemma step_break_flag:
  "traverse_step bm st loop fwd = Some (Inr Break) \<Longrightarrow>
     (if fwd then loops_exited st loop else loops_entered st loop)"
  using forward_step_break [of bm st loop] backward_step_break [of bm st loop]
  by (cases fwd) simp_all

lemma make_loop_while_marks:
  assumes "make_loop_while bm cfg mids st loop fwd first sp = Some (Inr (st', sp'))"
    and "marks_consistent st"
  shows "marks_consistent st' \<and> flags_mono st st' \<and> splines st' = splines st \<and>
         (if fwd then loops_exited st' loop else loops_entered st' loop)"
  using assms
proof (induction rule: make_loop_while_induct)
  case (Break st loop fwd first sp)
  then show ?case
    using step_break_flag [of bm st loop fwd] by (simp add: flags_mono_refl)
next
  case (Continue st loop fwd first sp st1 p l f pt st' sp')
  from step_marks_consistent [OF Continue(1) Continue(4)] have
    m1: "marks_consistent st1" and f1: "flags_mono st st1" and s1: "splines st1 = splines st"
    and g1: "if fwd then loops_exited st1 loop else loops_entered st1 loop"
    by simp_all
  from m1 have "marks_consistent (st1\<lparr>trace := trace st1 @ [Point p l f]\<rparr>)"
    by (simp add: marks_consistent_point)
  from Continue(3) [OF this] have
    m2: "marks_consistent st'"
    and f2: "flags_mono (st1\<lparr>trace := trace st1 @ [Point p l f]\<rparr>) st'"
    and s2: "splines st' = splines (st1\<lparr>trace := trace st1 @ [Point p l f]\<rparr>)"
    by simp_all
  have f3: "flags_mono st st'"
    by (rule flags_mono_trans [OF f1 flags_mono_trans [OF flags_mono_point f2]])
  have "if fwd then loops_exited st' loop else loops_entered st' loop"
    using g1 f1 f3 f2 by (auto simp: flags_mono_def split: if_splits)
  with m2 f3 s1 s2 show ?case by simp
qed

lemma make_loop_marks:
  assumes "make_loop bm cfg mids st loop fwd = Some (Inr st')"
    and "marks_consistent st"
  shows "marks_consistent st' \<and> flags_mono st st' \<and>
         (if fwd then loops_exited st' loop else loops_entered st' loop)"
proof -
  from assms(1) obtain st1 sp1 where
    run: "make_loop_while bm cfg mids st loop fwd True new_spline = Some (Inr (st1, sp1))"
    and st': "st' = st1\<lparr>splines := splines st1 @ [sp1]\<rparr>"
    by (auto simp: make_loop_def Let_def split: option.splits sum.splits)
  from make_loop_while_marks [OF run assms(2)] have
    "marks_consistent st1" "flags_mono st st1"
    "if fwd then loops_exited st1 loop else loops_entered st1 loop"
    by simp_all
  then show ?thesis
    unfolding st'
    by (auto simp: marks_consistent_splines intro: flags_mono_trans [OF _ flags_mono_splines]
        split: if_splits)
qed

lemma seed_loop_marks:
  assumes "seed_loop bm cfg mids st loop = Some (Inr st')"
    and "marks_consistent st"
  shows "marks_consistent st' \<and> flags_mono st st' \<and>
         (\<not> ignorable_loop bm loop \<longrightarrow> loops_exited st' loop \<and> loops_entered st' loop)"
proof (cases "ignorable_loop bm loop")
  case True
  with assms show ?thesis by (simp add: seed_loop_def flags_mono_refl)
next
  case False
  obtain st1 where
    first: "(if \<not> loops_exited st loop then make_loop bm cfg mids st loop True
             else Some (Inr st)) = Some (Inr st1)"
    and second: "(if \<not> loops_entered st1 loop then make_loop bm cfg mids st1 loop False
             else Some (Inr st1)) = Some (Inr st')"
    using assms(1) False
    by (auto simp: seed_loop_def split: option.splits sum.splits)
  have one: "marks_consistent st1 \<and> flags_mono st st1 \<and> loops_exited st1 loop"
  proof (cases "loops_exited st loop")
    case True
    with first assms(2) show ?thesis by (simp add: flags_mono_refl)
  next
    case False
    with first have "make_loop bm cfg mids st loop True = Some (Inr st1)" by simp
    from make_loop_marks [OF this assms(2)] show ?thesis by simp
  qed
  have two: "marks_consistent st' \<and> flags_mono st1 st' \<and> loops_entered st' loop"
  proof (cases "loops_entered st1 loop")
    case True
    with second one show ?thesis by (simp add: flags_mono_refl)
  next
    case False
    with second have "make_loop bm cfg mids st1 loop False = Some (Inr st')" by simp
    from make_loop_marks [OF this] one show ?thesis by simp
  qed
  from one two have "flags_mono st st'" "loops_exited st' loop"
    by (auto intro: flags_mono_trans simp: flags_mono_def)
  with two False show ?thesis by simp
qed

lemma scan_loops_marks:
  assumes "scan_loops bm cfg mids st ls = Some (Inr st')"
    and "marks_consistent st"
  shows "marks_consistent st' \<and> flags_mono st st' \<and>
         (\<forall>l\<in>set ls. \<not> ignorable_loop bm l \<longrightarrow> loops_exited st' l \<and> loops_entered st' l)"
  using assms
proof (induction ls arbitrary: st)
  case Nil
  then show ?case by (simp add: flags_mono_refl)
next
  case (Cons l ls)
  from Cons.prems(1) obtain st1 where
    head: "seed_loop bm cfg mids st l = Some (Inr st1)"
    and tail: "scan_loops bm cfg mids st1 ls = Some (Inr st')"
    by (auto split: option.splits sum.splits)
  from seed_loop_marks [OF head Cons.prems(2)] have
    h: "marks_consistent st1" "flags_mono st st1"
       "\<not> ignorable_loop bm l \<longrightarrow> loops_exited st1 l \<and> loops_entered st1 l"
    by simp_all
  from Cons.IH [OF tail h(1)] have
    t: "marks_consistent st'" "flags_mono st1 st'"
       "\<forall>l\<in>set ls. \<not> ignorable_loop bm l \<longrightarrow> loops_exited st' l \<and> loops_entered st' l"
    by simp_all
  have "flags_mono st st'"
    by (rule flags_mono_trans [OF h(2) t(2)])
  moreover have "\<not> ignorable_loop bm l \<longrightarrow> loops_exited st' l \<and> loops_entered st' l"
    using h(3) t(2) by (auto simp: flags_mono_def)
  ultimately show ?case using t by simp
qed

lemma scan_faces_marks:
  assumes "scan_faces bm cfg mids st fs = Some (Inr st')"
    and "marks_consistent st"
  shows "marks_consistent st' \<and> flags_mono st st' \<and>
         (\<forall>face\<in>set fs. \<forall>l\<in>set face.
            \<not> ignorable_loop bm l \<longrightarrow> loops_exited st' l \<and> loops_entered st' l)"
  using assms
proof (induction fs arbitrary: st)
  case Nil
  then show ?case by (simp add: flags_mono_refl)
next
  case (Cons face fs)
  from Cons.prems(1) obtain st1 where
    head: "scan_loops bm cfg mids st face = Some (Inr st1)"
    and tail: "scan_faces bm cfg mids st1 fs = Some (Inr st')"
    by (auto split: option.splits sum.splits)
  from scan_loops_marks [OF head Cons.prems(2)] have
    h: "marks_consistent st1" "flags_mono st st1"
       "\<forall>l\<in>set face. \<not> ignorable_loop bm l \<longrightarrow> loops_exited st1 l \<and> loops_entered st1 l"
    by simp_all
  from Cons.IH [OF tail h(1)] have
    t: "marks_consistent st'" "flags_mono st1 st'"
       "\<forall>face\<in>set fs. \<forall>l\<in>set face.
          \<not> ignorable_loop bm l \<longrightarrow> loops_exited st' l \<and> loops_entered st' l"
    by simp_all
  have "flags_mono st st'"
    by (rule flags_mono_trans [OF h(2) t(2)])
  moreover have
    "\<forall>l\<in>set face. \<not> ignorable_loop bm l \<longrightarrow> loops_exited st' l \<and> loops_entered st' l"
    using h(3) t(2) by (auto simp: flags_mono_def)
  ultimately show ?case using t by simp
qed

section \<open>Only loops of the mesh that are not ignorable are touched\<close>

lemma loops_closed_next: "loops_closed bm n \<Longrightarrow> l < n \<Longrightarrow> link_loop_next bm l < n"
  by (simp add: loops_closed_def)

lemma loops_closed_prev: "loops_closed bm n \<Longrightarrow> l < n \<Longrightarrow> link_loop_prev bm l < n"
  by (simp add: loops_closed_def)

lemma loops_closed_radial:
  "loops_closed bm n \<Longrightarrow> l < n \<Longrightarrow> r \<in> set (link_loops bm l) \<Longrightarrow>
     r < n \<and> \<not> ignorable_loop bm r"
  by (simp add: loops_closed_def)

lemma walk_next_closed:
  assumes "walk_next bm loop = Some y"
    and "loops_closed bm n" and "loop < n"
  shows "y < n"
proof -
  have "bm = bm \<longrightarrow> loop < n \<longrightarrow> y < n"
    by (rule walk_next.raw_induct [where P = "\<lambda>bm' loop y. bm' = bm \<longrightarrow> loop < n \<longrightarrow> y < n",
          OF _ assms(1)])
       (auto simp: Let_def loops_closed_next [OF assms(2)] split: if_splits)
  with assms(3) show ?thesis by simp
qed

lemma walk_prev_closed:
  assumes "walk_prev bm loop = Some y"
    and "loops_closed bm n" and "loop < n"
  shows "snd y < n"
proof -
  have "bm = bm \<longrightarrow> loop < n \<longrightarrow> snd y < n"
    by (rule walk_prev.raw_induct [where P = "\<lambda>bm' loop y. bm' = bm \<longrightarrow> loop < n \<longrightarrow> snd y < n",
          OF _ assms(1)])
       (auto simp: Let_def loops_closed_prev [OF assms(2)] split: if_splits)
  with assms(3) show ?thesis by simp
qed

lemma step_landing:
  assumes step: "traverse_step bm st loop fwd = Some (Inr (Continue st1 p l f))"
    and closed: "loops_closed bm n"
    and loop: "loop < n"
  shows "p < n \<and> \<not> ignorable_loop bm p \<and> l < n \<and> \<not> ignorable_loop bm l"
proof (cases fwd)
  case True
  with step have s: "traverse_step bm st loop True = Some (Inr (Continue st1 p l f))"
    by simp
  from forward_step_cases [OF s] have
    w: "walk_next bm loop = Some p" and ne: "link_loops bm p \<noteq> []"
    and l: "l = hd (link_loops bm p)"
    by simp_all
  from walk_next_closed [OF w closed loop] have p: "p < n" .
  from walk_next_result [OF w] have ip: "\<not> ignorable_loop bm p" .
  from ne l have "l \<in> set (link_loops bm p)" by simp
  from loops_closed_radial [OF closed p this] have "l < n \<and> \<not> ignorable_loop bm l" .
  with p ip show ?thesis by simp
next
  case False
  with step have s: "traverse_step bm st loop False = Some (Inr (Continue st1 p l f))"
    by simp
  from backward_step_cases [OF s] obtain v where
    w: "walk_prev bm loop = Some (v, p)" and ne: "link_loops bm p \<noteq> []"
    and l: "l = last (link_loops bm p)"
    by blast
  from walk_prev_closed [OF w closed loop] have p: "p < n" by simp
  from walk_prev_result [OF w] have ip: "\<not> ignorable_loop bm p" by simp
  from ne l have "l \<in> set (link_loops bm p)" by simp
  from loops_closed_radial [OF closed p this] have "l < n \<and> \<not> ignorable_loop bm l" .
  with p ip show ?thesis by simp
qed

lemma step_trace:
  assumes "traverse_step bm st loop fwd = Some (Inr (Continue st1 p l f))"
  shows "trace st1 = trace st @ (if fwd then [Exited loop, Entered p] else [Entered loop, Exited p])"
proof (cases fwd)
  case True
  with assms have s: "traverse_step bm st loop True = Some (Inr (Continue st1 p l f))"
    by simp
  from forward_step_cases [OF s] True show ?thesis
    by (simp add: set_entered_def set_exited_def)
next
  case False
  with assms have s: "traverse_step bm st loop False = Some (Inr (Continue st1 p l f))"
    by simp
  from backward_step_cases [OF s] False show ?thesis
    by (simp add: set_entered_def set_exited_def)
qed

lemma make_loop_while_trace_ok:
  assumes "make_loop_while bm cfg mids st loop fwd first sp = Some (Inr (st', sp'))"
    and "loops_closed bm n"
    and "loop < n" and "\<not> ignorable_loop bm loop"
    and "trace_ok bm n st"
  shows "trace_ok bm n st'"
  using assms
proof (induction rule: make_loop_while_induct)
  case (Break st loop fwd first sp)
  then show ?case by simp
next
  case (Continue st loop fwd first sp st1 p l f pt st' sp')
  from step_landing [OF Continue(1) Continue(4) Continue(5)] have
    land: "p < n" "\<not> ignorable_loop bm p" "l < n" "\<not> ignorable_loop bm l"
    by simp_all
  have "trace_ok bm n (st1\<lparr>trace := trace st1 @ [Point p l f]\<rparr>)"
    using Continue(7) land Continue(5) Continue(6)
    by (simp add: trace_ok_def step_trace [OF Continue(1)])
  from Continue(3) [OF Continue(4) land(3) land(4) this] show ?case .
qed

lemma trace_ok_splines: "trace_ok bm n (st\<lparr>splines := s\<rparr>) = trace_ok bm n st"
  by (simp add: trace_ok_def)

lemma make_loop_trace_ok:
  assumes "make_loop bm cfg mids st loop fwd = Some (Inr st')"
    and "loops_closed bm n"
    and "loop < n" and "\<not> ignorable_loop bm loop"
    and "trace_ok bm n st"
  shows "trace_ok bm n st'"
proof -
  from assms(1) obtain st1 sp1 where
    run: "make_loop_while bm cfg mids st loop fwd True new_spline = Some (Inr (st1, sp1))"
    and st': "st' = st1\<lparr>splines := splines st1 @ [sp1]\<rparr>"
    by (auto simp: make_loop_def Let_def split: option.splits sum.splits)
  from make_loop_while_trace_ok [OF run assms(2-5)] show ?thesis
    unfolding st' by (simp add: trace_ok_splines)
qed

lemma seed_loop_trace_ok:
  assumes "seed_loop bm cfg mids st loop = Some (Inr st')"
    and "loops_closed bm n"
    and "loop < n"
    and "trace_ok bm n st"
  shows "trace_ok bm n st'"
proof (cases "ignorable_loop bm loop")
  case True
  with assms show ?thesis by (simp add: seed_loop_def)
next
  case False
  obtain st1 where
    first: "(if \<not> loops_exited st loop then make_loop bm cfg mids st loop True
             else Some (Inr st)) = Some (Inr st1)"
    and second: "(if \<not> loops_entered st1 loop then make_loop bm cfg mids st1 loop False
             else Some (Inr st1)) = Some (Inr st')"
    using assms(1) False
    by (auto simp: seed_loop_def split: option.splits sum.splits)
  have one: "trace_ok bm n st1"
    using first assms(4) make_loop_trace_ok [OF _ assms(2) assms(3) False assms(4)]
    by (auto split: if_splits)
  show ?thesis
    using second one make_loop_trace_ok [OF _ assms(2) assms(3) False one]
    by (auto split: if_splits)
qed

lemma scan_loops_trace_ok:
  assumes "scan_loops bm cfg mids st ls = Some (Inr st')"
    and "loops_closed bm n"
    and "\<forall>l\<in>set ls. l < n"
    and "trace_ok bm n st"
  shows "trace_ok bm n st'"
  using assms
proof (induction ls arbitrary: st)
  case Nil
  then show ?case by simp
next
  case (Cons l ls)
  from Cons.prems(1) obtain st1 where
    head: "seed_loop bm cfg mids st l = Some (Inr st1)"
    and tail: "scan_loops bm cfg mids st1 ls = Some (Inr st')"
    by (auto split: option.splits sum.splits)
  from Cons.prems(3) have l: "l < n" and ls: "\<forall>l\<in>set ls. l < n" by simp_all
  from seed_loop_trace_ok [OF head Cons.prems(2) l Cons.prems(4)]
  have "trace_ok bm n st1" .
  from Cons.IH [OF tail Cons.prems(2) ls this] show ?case .
qed

lemma scan_faces_trace_ok:
  assumes "scan_faces bm cfg mids st fs = Some (Inr st')"
    and "loops_closed bm n"
    and "\<forall>face\<in>set fs. \<forall>l\<in>set face. l < n"
    and "trace_ok bm n st"
  shows "trace_ok bm n st'"
  using assms
proof (induction fs arbitrary: st)
  case Nil
  then show ?case by simp
next
  case (Cons face fs)
  from Cons.prems(1) obtain st1 where
    head: "scan_loops bm cfg mids st face = Some (Inr st1)"
    and tail: "scan_faces bm cfg mids st1 fs = Some (Inr st')"
    by (auto split: option.splits sum.splits)
  from Cons.prems(3) have f: "\<forall>l\<in>set face. l < n"
    and fs: "\<forall>face\<in>set fs. \<forall>l\<in>set face. l < n" by simp_all
  from scan_loops_trace_ok [OF head Cons.prems(2) f Cons.prems(4)]
  have "trace_ok bm n st1" .
  from Cons.IH [OF tail Cons.prems(2) fs this] show ?case .
qed

section \<open>Coverage\<close>

lemma strip_loops_closed: "loops_closed strip 9"
  unfolding loops_closed_def all_less_list
  by (simp add: example_defs ignorable_loop_def upt_conv_Cons)

lemma strip_faces_in_range: "faces_in_range strip 9"
  by (simp add: faces_in_range_def example_defs)

lemma strip_run: "create_bezier strip twists auto_cfg = Some (Inr strip_final)"
  by (simp add: run_defs example_defs strip_final_def)

lemma marks_consistent_init: "marks_consistent init_state"
  by (simp add: marks_consistent_def init_state_def)

lemma trace_ok_init: "trace_ok bm n init_state"
  by (simp add: trace_ok_def init_state_def)

text \<open>
  Claim C1. Take a mesh whose loops are numbered below \<open>n\<close>, whose links stay inside the
  mesh and whose radial loops are not ignorable. If the scan over all faces completes
  without a failed assertion, then every loop of a face that is not ignorable has both
  flags true, and each of its two flags was assigned exactly once; no flag of any loop
  was assigned twice; and an ignorable loop has both flags false and occurs in no
  assignment and in no control point, neither as the crossed nor as the landing loop.
\<close>

theorem coverage:
  assumes "loops_closed bm n"
    and "faces_in_range bm n"
    and "create_bezier bm twists cfg = Some (Inr st)"
  shows "(\<forall>face\<in>set (faces bm). \<forall>l\<in>set face. \<not> ignorable_loop bm l \<longrightarrow>
            loops_exited st l \<and> loops_entered st l \<and>
            count_list (trace st) (Exited l) = 1 \<and> count_list (trace st) (Entered l) = 1) \<and>
         (\<forall>l. count_list (trace st) (Exited l) \<le> 1 \<and> count_list (trace st) (Entered l) \<le> 1) \<and>
         (\<forall>l. ignorable_loop bm l \<longrightarrow>
            \<not> loops_exited st l \<and> \<not> loops_entered st l \<and>
            (\<forall>e\<in>set (trace st). l \<notin> set (event_loops e)))"
proof -
  from assms(3) have
    scan: "scan_faces bm cfg (midpoints_loop bm (edges bm) []) init_state (faces bm) = Some (Inr st)"
    by (simp add: create_bezier_def Let_def)
  from scan_faces_marks [OF scan marks_consistent_init] have
    mc: "marks_consistent st"
    and flags: "\<forall>face\<in>set (faces bm). \<forall>l\<in>set face.
        \<not> ignorable_loop bm l \<longrightarrow> loops_exited st l \<and> loops_entered st l"
    by simp_all
  from assms(2) have "\<forall>face\<in>set (faces bm). \<forall>l\<in>set face. l < n"
    by (simp add: faces_in_range_def)
  from scan_faces_trace_ok [OF scan assms(1) this trace_ok_init] have
    ok: "trace_ok bm n st" .
  have once: "\<forall>face\<in>set (faces bm). \<forall>l\<in>set face. \<not> ignorable_loop bm l \<longrightarrow>
            loops_exited st l \<and> loops_entered st l \<and>
            count_list (trace st) (Exited l) = 1 \<and> count_list (trace st) (Entered l) = 1"
    using flags mc by (simp add: marks_consistent_def)
  have most: "\<forall>l. count_list (trace st) (Exited l) \<le> 1 \<and> count_list (trace st) (Entered l) \<le> 1"
    using mc by (simp add: marks_consistent_def)
  have never: "\<forall>l. ignorable_loop bm l \<longrightarrow>
            \<not> loops_exited st l \<and> \<not> loops_entered st l \<and>
            (\<forall>e\<in>set (trace st). l \<notin> set (event_loops e))"
  proof (intro allI impI conjI)
    fix l
    assume ign: "ignorable_loop bm l"
    show "\<not> loops_exited st l"
    proof
      assume "loops_exited st l"
      with mc have "count_list (trace st) (Exited l) = 1"
        by (simp add: marks_consistent_def)
      then have "Exited l \<in> set (trace st)"
        using count_list_0_iff [of "trace st" "Exited l"] by auto
      with ok have "\<not> ignorable_loop bm l"
        by (force simp: trace_ok_def)
      with ign show False by simp
    qed
    show "\<not> loops_entered st l"
    proof
      assume "loops_entered st l"
      with mc have "count_list (trace st) (Entered l) = 1"
        by (simp add: marks_consistent_def)
      then have "Entered l \<in> set (trace st)"
        using count_list_0_iff [of "trace st" "Entered l"] by auto
      with ok have "\<not> ignorable_loop bm l"
        by (force simp: trace_ok_def)
      with ign show False by simp
    qed
    show "\<forall>e\<in>set (trace st). l \<notin> set (event_loops e)"
      using ok ign by (auto simp: trace_ok_def)
  qed
  from once most never show ?thesis by blast
qed

theorem coverage_witness:
  "loops_closed strip 9 \<and> faces_in_range strip 9 \<and>
   create_bezier strip [] auto_cfg = Some (Inr strip_final) \<and>
   \<not> ignorable_loop strip 5 \<and>
   loops_exited strip_final 5 \<and> loops_entered strip_final 5 \<and>
   count_list (trace strip_final) (Exited 5) = 1 \<and>
   count_list (trace strip_final) (Entered 5) = 1 \<and>
   ignorable_loop strip 4 \<and>
   \<not> loops_exited strip_final 4 \<and> \<not> loops_entered strip_final 4"
proof -
  have face: "[3, 4, 5] \<in> set (faces strip)" and l: "5 \<in> set [3, 4, 5::nat]"
    by (simp_all add: example_defs)
  have i5: "\<not> ignorable_loop strip 5" and i4: "ignorable_loop strip 4"
    by (simp_all add: example_defs ignorable_loop_def)
  from coverage [OF strip_loops_closed strip_faces_in_range strip_run [of "[]"]] have
    a: "\<forall>face\<in>set (faces strip). \<forall>l\<in>set face. \<not> ignorable_loop strip l \<longrightarrow>
      loops_exited strip_final l \<and> loops_entered strip_final l \<and>
      count_list (trace strip_final) (Exited l) = 1 \<and>
      count_list (trace strip_final) (Entered l) = 1"
    and b: "\<forall>l. ignorable_loop strip l \<longrightarrow>
      \<not> loops_exited strip_final l \<and> \<not> loops_entered strip_final l \<and>
      (\<forall>e\<in>set (trace strip_final). l \<notin> set (event_loops e))"
    by blast+
  from a face l i5 have
    "loops_exited strip_final 5 \<and> loops_entered strip_final 5 \<and>
     count_list (trace strip_final) (Exited 5) = 1 \<and>
     count_list (trace strip_final) (Entered 5) = 1"
    by blast
  moreover from b i4 have "\<not> loops_exited strip_final 4 \<and> \<not> loops_entered strip_final 4"
    by blast
  ultimately show ?thesis
    using strip_loops_closed strip_faces_in_range strip_run [of "[]"] i5 i4 by blast
qed

section \<open>Termination of a traversal\<close>

lemma walk_next_Some:
  "\<not> ignorable_loop bm ((link_loop_next bm ^^ Suc k) loop) \<Longrightarrow> \<exists>y. walk_next bm loop = Some y"
proof (induction k arbitrary: loop)
  case 0
  then show ?case
    by (subst walk_next.simps) (simp add: Let_def)
next
  case (Suc k)
  show ?case
  proof (cases "ignorable_loop bm (link_loop_next bm loop)")
    case False
    then show ?thesis
      by (subst walk_next.simps) (simp add: Let_def)
  next
    case True
    from Suc.prems have
      "\<not> ignorable_loop bm ((link_loop_next bm ^^ Suc k) (link_loop_next bm loop))"
      by (simp add: funpow_swap1)
    from Suc.IH [OF this] obtain y where "walk_next bm (link_loop_next bm loop) = Some y" ..
    with True show ?thesis
      by (subst walk_next.simps) (simp add: Let_def)
  qed
qed

lemma walk_prev_Some:
  "\<not> ignorable_loop bm ((link_loop_prev bm ^^ Suc k) loop) \<Longrightarrow> \<exists>y. walk_prev bm loop = Some y"
proof (induction k arbitrary: loop)
  case 0
  then show ?case
    by (subst walk_prev.simps) (simp add: Let_def)
next
  case (Suc k)
  show ?case
  proof (cases "ignorable_loop bm (link_loop_prev bm loop)")
    case False
    then show ?thesis
      by (subst walk_prev.simps) (simp add: Let_def)
  next
    case True
    from Suc.prems have
      "\<not> ignorable_loop bm ((link_loop_prev bm ^^ Suc k) (link_loop_prev bm loop))"
      by (simp add: funpow_swap1)
    from Suc.IH [OF this] obtain y where "walk_prev bm (link_loop_prev bm loop) = Some y" ..
    with True show ?thesis
      by (subst walk_prev.simps) (simp add: Let_def)
  qed
qed

lemma step_terminates:
  assumes cyc: "faces_cyclic bm n"
    and loop: "loop < n" "\<not> ignorable_loop bm loop"
  shows "\<exists>r. traverse_step bm st loop fwd = Some r"
proof -
  from cyc loop(1) obtain k where "(link_loop_next bm ^^ Suc k) loop = loop"
    unfolding faces_cyclic_def by blast
  with loop(2) have "\<not> ignorable_loop bm ((link_loop_next bm ^^ Suc k) loop)" by simp
  from walk_next_Some [OF this] obtain y where y: "walk_next bm loop = Some y" ..
  from cyc loop(1) obtain j where "(link_loop_prev bm ^^ Suc j) loop = loop"
    unfolding faces_cyclic_def by blast
  with loop(2) have "\<not> ignorable_loop bm ((link_loop_prev bm ^^ Suc j) loop)" by simp
  from walk_prev_Some [OF this] obtain z where z: "walk_prev bm loop = Some z" ..
  show ?thesis
    using y z
    by (cases z) (simp add: traverse_step_def Let_def split: list.splits)
qed

lemma filter_update_le:
  "length (filter (\<lambda>l. \<not> (f(x := True)) l) xs) \<le> length (filter (\<lambda>l. \<not> f l) xs)"
  by (induction xs) auto

lemma filter_update_less:
  "x \<in> set xs \<Longrightarrow> \<not> f x \<Longrightarrow>
     length (filter (\<lambda>l. \<not> (f(x := True)) l) xs) < length (filter (\<lambda>l. \<not> f l) xs)"
proof (induction xs)
  case Nil
  then show ?case by simp
next
  case (Cons a xs)
  show ?case
  proof (cases "a = x")
    case True
    with Cons.prems(2) filter_update_le [of f x xs] show ?thesis
      by simp
  next
    case False
    with Cons show ?thesis by auto
  qed
qed

lemma unmarked_step:
  assumes step: "traverse_step bm st loop fwd = Some (Inr (Continue st1 p l f))"
    and loop: "loop < n" and p: "p < n"
  shows "unmarked n (st1\<lparr>trace := trace st1 @ [Point p l f]\<rparr>) + 2 \<le> unmarked n st"
proof (cases fwd)
  case True
  with step have s: "traverse_step bm st loop True = Some (Inr (Continue st1 p l f))"
    by simp
  from forward_step_cases [OF s] have
    a: "\<not> loops_exited st loop" and b: "\<not> loops_entered st p"
    and c: "st1 = set_entered p (set_exited loop st)"
    by (simp_all add: set_exited_def)
  from loop a have "length (filter (\<lambda>l. \<not> ((loops_exited st)(loop := True)) l) [0..<n])
      < length (filter (\<lambda>l. \<not> loops_exited st l) [0..<n])"
    by (intro filter_update_less) simp_all
  moreover from p b have "length (filter (\<lambda>l. \<not> ((loops_entered st)(p := True)) l) [0..<n])
      < length (filter (\<lambda>l. \<not> loops_entered st l) [0..<n])"
    by (intro filter_update_less) simp_all
  ultimately show ?thesis
    unfolding c unmarked_def by (simp add: set_entered_def set_exited_def)
next
  case False
  with step have s: "traverse_step bm st loop False = Some (Inr (Continue st1 p l f))"
    by simp
  from backward_step_cases [OF s] have
    a: "\<not> loops_entered st loop" and b: "\<not> loops_exited st p"
    and c: "st1 = set_exited p (set_entered loop st)"
    by (simp_all add: set_entered_def)
  from loop a have "length (filter (\<lambda>l. \<not> ((loops_entered st)(loop := True)) l) [0..<n])
      < length (filter (\<lambda>l. \<not> loops_entered st l) [0..<n])"
    by (intro filter_update_less) simp_all
  moreover from p b have "length (filter (\<lambda>l. \<not> ((loops_exited st)(p := True)) l) [0..<n])
      < length (filter (\<lambda>l. \<not> loops_exited st l) [0..<n])"
    by (intro filter_update_less) simp_all
  ultimately show ?thesis
    unfolding c unmarked_def by (simp add: set_entered_def set_exited_def)
qed

lemma emit_fields:
  "use_cyclic_u (emit pt first sp) = use_cyclic_u sp"
  "length (cos_list (emit pt first sp)) = Suc (length (cos_list sp))"
  "bezier_points (emit pt first sp) = bezier_points sp + (if first then 0 else 1)"
  by (auto simp: emit_def Let_def split: option.splits prod.splits)

lemma make_loop_while_terminates:
  assumes closed: "loops_closed bm n" and cyc: "faces_cyclic bm n"
  shows "loop < n \<Longrightarrow> \<not> ignorable_loop bm loop \<Longrightarrow>
     \<exists>r. make_loop_while bm cfg mids st loop fwd first sp = Some r \<and>
         (\<forall>st' sp'. r = Inr (st', sp') \<longrightarrow>
            2 * length (cos_list sp') \<le> 2 * length (cos_list sp) + unmarked n st)"
proof (induction "unmarked n st" arbitrary: st loop fwd first sp rule: less_induct)
  case less
  from step_terminates [OF cyc less.prems] obtain r where
    r: "traverse_step bm st loop fwd = Some r" by blast
  show ?case
  proof (cases r)
    case (Inl e)
    with r show ?thesis
      by (subst make_loop_while.simps) simp
  next
    case (Inr sr)
    show ?thesis
    proof (cases sr)
      case Break
      with r Inr show ?thesis
        by (subst make_loop_while.simps) simp
    next
      case (Continue st1 p l f)
      with r Inr have step: "traverse_step bm st loop fwd = Some (Inr (Continue st1 p l f))"
        by simp
      show ?thesis
      proof (cases "crossing_point bm cfg mids p l f")
        case (Inl e)
        with step show ?thesis
          by (subst make_loop_while.simps) simp
      next
        case (Inr pt)
        from step_landing [OF step closed less.prems(1)] have
          land: "p < n" "l < n" "\<not> ignorable_loop bm l"
          by simp_all
        from unmarked_step [OF step less.prems(1) land(1)] have
          dec: "unmarked n (st1\<lparr>trace := trace st1 @ [Point p l f]\<rparr>) + 2 \<le> unmarked n st" .
        then have "unmarked n (st1\<lparr>trace := trace st1 @ [Point p l f]\<rparr>) < unmarked n st"
          by simp
        from less.hyps [OF this land(2) land(3), of f False "emit pt first sp"]
        obtain r2 where
          rec: "make_loop_while bm cfg mids (st1\<lparr>trace := trace st1 @ [Point p l f]\<rparr>)
                  l f False (emit pt first sp) = Some r2"
          and bound: "\<forall>st' sp'. r2 = Inr (st', sp') \<longrightarrow>
            2 * length (cos_list sp') \<le> 2 * length (cos_list (emit pt first sp)) +
               unmarked n (st1\<lparr>trace := trace st1 @ [Point p l f]\<rparr>)"
          by blast
        have unfold: "make_loop_while bm cfg mids st loop fwd first sp = Some r2"
          using step Inr rec by (subst make_loop_while.simps) simp
        have "\<forall>st' sp'. r2 = Inr (st', sp') \<longrightarrow>
            2 * length (cos_list sp') \<le> 2 * length (cos_list sp) + unmarked n st"
          using bound dec by (auto simp: emit_fields)
        with unfold show ?thesis by blast
      qed
    qed
  qed
qed

section \<open>What a returning traversal has done\<close>

lemma make_loop_while_accounts:
  assumes "make_loop_while bm cfg mids st loop fwd first sp = Some (Inr (st', sp'))"
  shows "use_cyclic_u sp' = use_cyclic_u sp \<and>
         length (trace st') + 3 * length (cos_list sp)
           = length (trace st) + 3 * length (cos_list sp') \<and>
         length (cos_list sp) \<le> length (cos_list sp') \<and>
         bezier_points sp' + (if first \<and> length (cos_list sp) < length (cos_list sp') then 1 else 0)
             + length (cos_list sp)
           = bezier_points sp + length (cos_list sp')"
  using assms
proof (induction rule: make_loop_while_induct)
  case (Break st loop fwd first sp)
  then show ?case by simp
next
  case (Continue st loop fwd first sp st1 p l f pt st' sp')
  from step_trace [OF Continue(1)] have "length (trace st1) = length (trace st) + 2"
    by simp
  with Continue(3) show ?case
    by (auto simp: emit_fields)
qed

lemma break_ignores_splines:
  "(traverse_step bm (st\<lparr>splines := s\<rparr>) l f = Some (Inr Break))
     = (traverse_step bm st l f = Some (Inr Break))"
  using forward_step_break [of bm st l] backward_step_break [of bm st l]
    forward_step_break [of bm "st\<lparr>splines := s\<rparr>" l]
    backward_step_break [of bm "st\<lparr>splines := s\<rparr>" l]
  by (cases f) simp_all

lemma make_loop_while_closes:
  assumes "make_loop_while bm cfg mids st loop fwd first sp = Some (Inr (st', sp'))"
  shows "(st' = st \<and> sp' = sp \<and> traverse_step bm st loop fwd = Some (Inr Break)) \<or>
         (\<exists>p l f t. trace st' = trace st @ t @ [Point p l f] \<and>
                    traverse_step bm st' l f = Some (Inr Break))"
  using assms
proof (induction rule: make_loop_while_induct)
  case (Break st loop fwd first sp)
  then show ?case by simp
next
  case (Continue st loop fwd first sp st1 p l f pt st' sp')
  from step_trace [OF Continue(1)] obtain t1 where t1: "trace st1 = trace st @ t1"
    by simp
  from Continue(3) show ?case
  proof
    assume "st' = st1\<lparr>trace := trace st1 @ [Point p l f]\<rparr> \<and> sp' = emit pt first sp \<and>
      traverse_step bm (st1\<lparr>trace := trace st1 @ [Point p l f]\<rparr>) l f = Some (Inr Break)"
    then have "trace st' = trace st @ t1 @ [Point p l f]"
      and "traverse_step bm st' l f = Some (Inr Break)"
      using t1 by simp_all
    then show ?thesis by blast
  next
    assume "\<exists>p' l' f' t. trace st' = trace (st1\<lparr>trace := trace st1 @ [Point p l f]\<rparr>) @ t @ [Point p' l' f'] \<and>
      traverse_step bm st' l' f' = Some (Inr Break)"
    then obtain p' l' f' t where
      "trace st' = trace st @ (t1 @ [Point p l f] @ t) @ [Point p' l' f']"
      and "traverse_step bm st' l' f' = Some (Inr Break)"
      using t1 by auto
    then show ?thesis by blast
  qed
qed

lemma strip_faces_cyclic: "faces_cyclic strip 9"
  unfolding faces_cyclic_def all_less_list ex_less_list
  by (simp add: example_defs upt_conv_Cons)

text \<open>
  Claim C5. In a mesh of \<open>n\<close> loops whose links stay inside the mesh and whose faces are
  cyclic, every traversal seeded at a loop that is not ignorable returns, with a spline
  or with a failed assertion. When it returns a spline: each flag has still been
  assigned at most once and no flag was reset; the loop stopped because the closure
  check fired, either at once or at the landing loop of the last control point, in the
  direction recomputed there; the spline is cyclic; every control point comes with the
  assignment of two flags that were false, so there are at most half as many points as
  there were false flags; and the spline has exactly one bezier point per crossing,
  none being added when the cycle closes.
\<close>

theorem traversal_terminates:
  assumes "loops_closed bm n" and "faces_cyclic bm n"
    and "loop < n" and "\<not> ignorable_loop bm loop"
    and "marks_consistent st"
  shows "\<exists>r. make_loop bm cfg midpoints st loop forward = Some r \<and>
     (\<forall>st'. r = Inr st' \<longrightarrow>
        marks_consistent st' \<and> flags_mono st st' \<and>
        ((trace st' = trace st \<and> traverse_step bm st loop forward = Some (Inr Break)) \<or>
         (\<exists>p l f t. trace st' = trace st @ t @ [Point p l f] \<and>
                    traverse_step bm st' l f = Some (Inr Break))) \<and>
        (\<exists>sp. splines st' = splines st @ [sp] \<and> use_cyclic_u sp \<and>
              2 * length (cos_list sp) \<le> unmarked n st \<and>
              length (trace st') = length (trace st) + 3 * length (cos_list sp) \<and>
              bezier_points sp = (if cos_list sp = [] then 1 else length (cos_list sp))))"
proof -
  from make_loop_while_terminates [OF assms(1-4), of cfg midpoints st forward True new_spline]
  obtain r0 where
    run: "make_loop_while bm cfg midpoints st loop forward True new_spline = Some r0"
    and bound: "\<forall>st' sp'. r0 = Inr (st', sp') \<longrightarrow>
        2 * length (cos_list sp') \<le> 2 * length (cos_list new_spline) + unmarked n st"
    by blast
  show ?thesis
  proof (cases r0)
    case (Inl e)
    with run have "make_loop bm cfg midpoints st loop forward = Some (Inl e)"
      by (simp add: make_loop_def Let_def)
    then show ?thesis by simp
  next
    case (Inr res)
    obtain st1 sp1 where res: "res = (st1, sp1)" by (cases res)
    with run Inr have
      run1: "make_loop_while bm cfg midpoints st loop forward True new_spline
               = Some (Inr (st1, sp1))"
      by simp
    then have ml: "make_loop bm cfg midpoints st loop forward
        = Some (Inr (st1\<lparr>splines := splines st1 @ [sp1]\<rparr>))"
      by (simp add: make_loop_def Let_def)
    from make_loop_marks [OF ml assms(5)] have
      marks: "marks_consistent (st1\<lparr>splines := splines st1 @ [sp1]\<rparr>)"
        "flags_mono st (st1\<lparr>splines := splines st1 @ [sp1]\<rparr>)"
      by simp_all
    from make_loop_while_marks [OF run1 assms(5)] have spl: "splines st1 = splines st"
      by simp
    from make_loop_while_closes [OF run1] have
      closes: "(trace (st1\<lparr>splines := splines st1 @ [sp1]\<rparr>) = trace st \<and>
          traverse_step bm st loop forward = Some (Inr Break)) \<or>
         (\<exists>p l f t. trace (st1\<lparr>splines := splines st1 @ [sp1]\<rparr>) = trace st @ t @ [Point p l f] \<and>
            traverse_step bm (st1\<lparr>splines := splines st1 @ [sp1]\<rparr>) l f = Some (Inr Break))"
      by (auto simp: break_ignores_splines)
    from make_loop_while_accounts [OF run1] have
      acc: "use_cyclic_u sp1"
        "length (trace st1) = length (trace st) + 3 * length (cos_list sp1)"
        "bezier_points sp1 = (if cos_list sp1 = [] then 1 else length (cos_list sp1))"
      by (auto simp: new_spline_def split: if_splits)
    from bound Inr res have "2 * length (cos_list sp1) \<le> unmarked n st"
      by (simp add: new_spline_def)
    with acc spl have
      "\<exists>sp. splines (st1\<lparr>splines := splines st1 @ [sp1]\<rparr>) = splines st @ [sp] \<and>
          use_cyclic_u sp \<and>
          2 * length (cos_list sp) \<le> unmarked n st \<and>
          length (trace (st1\<lparr>splines := splines st1 @ [sp1]\<rparr>))
            = length (trace st) + 3 * length (cos_list sp) \<and>
          bezier_points sp = (if cos_list sp = [] then 1 else length (cos_list sp))"
      by simp
    with ml marks closes show ?thesis by simp
  qed
qed

theorem traversal_terminates_witness:
  "loops_closed strip 9 \<and> faces_cyclic strip 9 \<and> 1 < (9::nat) \<and>
   \<not> ignorable_loop strip 1 \<and> marks_consistent init_state \<and>
   make_loop strip auto_cfg (midpoints_loop strip (edges strip) []) init_state 1 True
     = Some (Inr strip_final) \<and>
   marks_consistent strip_final \<and> flags_mono init_state strip_final"
proof -
  have n: "1 < (9::nat)" by simp
  have i: "\<not> ignorable_loop strip 1"
    by (simp add: example_defs ignorable_loop_def)
  have run: "make_loop strip auto_cfg (midpoints_loop strip (edges strip) []) init_state 1 True
     = Some (Inr strip_final)"
    by (simp add: run_defs example_defs strip_final_def)
  from traversal_terminates [OF strip_loops_closed strip_faces_cyclic n i marks_consistent_init,
      of auto_cfg "midpoints_loop strip (edges strip) []" True] run
  have "marks_consistent strip_final \<and> flags_mono init_state strip_final"
    by auto
  with strip_loops_closed strip_faces_cyclic n i marks_consistent_init run
  show ?thesis by blast
qed

section \<open>Every control point comes from a crossing\<close>

lemma midpoints_loop_map:
  "midpoints_loop obj es midpoints =
     midpoints @ map (\<lambda>e. vec_div (vec_add (vert_co obj (fst (vertices e)))
                                      (vert_co obj (snd (vertices e)))) 2) es"
  by (induction es arbitrary: midpoints) (simp_all add: Let_def)

lemma crossing_point_auto:
  assumes "crossing_point bm cfg mids p l f = Inr (pos, h)"
  shows "(h = None) = (handle_type cfg = AUTO)"
proof (cases "handle_type cfg = AUTO")
  case True
  with assms show ?thesis
    by (auto simp: crossing_point_def Let_def split: if_splits)
next
  case False
  from crossing_point_handles [OF False assms] False show ?thesis by simp
qed

lemma emitted_fromD:
  assumes "emitted_from bm cfg mids tr sp" and "i < length (cos_list sp)"
  shows "\<exists>p l f. Point p l f \<in> set tr \<and>
           crossing_point bm cfg mids p l f =
             Inr (cos_list sp ! i,
                  if handle_type cfg \<noteq> AUTO
                  then Some (handle_lefts sp ! i, handle_rights sp ! i) else None)"
  using assms unfolding emitted_from_def by blast

lemma emitted_from_lengths:
  assumes "emitted_from bm cfg mids tr sp" and "handle_type cfg \<noteq> AUTO"
  shows "length (handle_lefts sp) = length (cos_list sp)"
    and "length (handle_rights sp) = length (cos_list sp)"
  using assms unfolding emitted_from_def by blast+

lemma emitted_from_mono:
  "emitted_from bm cfg mids tr sp \<Longrightarrow> set tr \<subseteq> set tr' \<Longrightarrow> emitted_from bm cfg mids tr' sp"
  unfolding emitted_from_def by blast

lemma emitted_from_new: "emitted_from bm cfg mids tr new_spline"
  by (simp add: emitted_from_def new_spline_def)

lemma emitted_from_emit:
  assumes inv: "emitted_from bm cfg mids tr sp"
    and cp: "crossing_point bm cfg mids p l f = Inr pt"
    and ev: "Point p l f \<in> set tr"
  shows "emitted_from bm cfg mids tr (emit pt first sp)"
proof (cases "handle_type cfg = AUTO")
  case True
  obtain pos h where pt: "pt = (pos, h)" by (cases pt)
  with cp crossing_point_auto [of bm cfg mids p l f pos h] True have h: "h = None"
    by simp
  have cos: "cos_list (emit pt first sp) = cos_list sp @ [pos]"
    by (simp add: emit_def Let_def pt h)
  show ?thesis
    unfolding emitted_from_def cos
  proof (intro conjI allI impI)
    fix i
    assume "i < length (cos_list sp @ [pos])"
    then consider "i < length (cos_list sp)" | "i = length (cos_list sp)"
      by (auto simp: less_Suc_eq)
    then show "\<exists>prev_loop loop forward. Point prev_loop loop forward \<in> set tr \<and>
        crossing_point bm cfg mids prev_loop loop forward =
          Inr ((cos_list sp @ [pos]) ! i,
               if handle_type cfg \<noteq> AUTO
               then Some (handle_lefts (emit pt first sp) ! i, handle_rights (emit pt first sp) ! i)
               else None)"
    proof cases
      case 1
      with inv True show ?thesis
        by (simp add: emitted_from_def nth_append)
    next
      case 2
      with cp ev pt h True show ?thesis
        by (auto simp: nth_append)
    qed
  qed (use True in simp_all)
next
  case False
  obtain pos h where pt: "pt = (pos, h)" by (cases pt)
  with cp crossing_point_auto [of bm cfg mids p l f pos h] False obtain hl hr where
    h: "h = Some (hl, hr)"
    by (cases h) auto
  from inv False have
    len: "length (handle_lefts sp) = length (cos_list sp)"
         "length (handle_rights sp) = length (cos_list sp)"
    by (simp_all add: emitted_from_def)
  have fields: "cos_list (emit pt first sp) = cos_list sp @ [pos]"
    "handle_lefts (emit pt first sp) = handle_lefts sp @ [hl]"
    "handle_rights (emit pt first sp) = handle_rights sp @ [hr]"
    by (simp_all add: emit_def Let_def pt h)
  show ?thesis
    unfolding emitted_from_def fields
  proof (intro conjI allI impI)
    fix i
    assume "i < length (cos_list sp @ [pos])"
    then consider "i < length (cos_list sp)" | "i = length (cos_list sp)"
      by (auto simp: less_Suc_eq)
    then show "\<exists>prev_loop loop forward. Point prev_loop loop forward \<in> set tr \<and>
        crossing_point bm cfg mids prev_loop loop forward =
          Inr ((cos_list sp @ [pos]) ! i,
               if handle_type cfg \<noteq> AUTO
               then Some ((handle_lefts sp @ [hl]) ! i, (handle_rights sp @ [hr]) ! i)
               else None)"
    proof cases
      case 1
      with inv False len show ?thesis
        by (simp add: emitted_from_def nth_append)
    next
      case 2
      with cp ev pt h False len show ?thesis
        by (auto simp: nth_append)
    qed
  qed (use len in simp_all)
qed

lemma make_loop_while_emitted:
  assumes "make_loop_while bm cfg mids st loop fwd first sp = Some (Inr (st', sp'))"
    and "emitted_from bm cfg mids (trace st) sp"
  shows "emitted_from bm cfg mids (trace st') sp'"
  using assms
proof (induction rule: make_loop_while_induct)
  case (Break st loop fwd first sp)
  then show ?case by simp
next
  case (Continue st loop fwd first sp st1 p l f pt st' sp')
  from step_trace [OF Continue(1)] have "set (trace st) \<subseteq> set (trace st1 @ [Point p l f])"
    by auto
  from emitted_from_mono [OF Continue(4) this]
  have "emitted_from bm cfg mids (trace st1 @ [Point p l f]) sp" .
  from emitted_from_emit [OF this Continue(2), of first]
  have "emitted_from bm cfg mids (trace st1 @ [Point p l f]) (emit pt first sp)"
    by simp
  with Continue(3) show ?case by simp
qed

lemma step_splines:
  assumes "traverse_step bm st loop fwd = Some (Inr (Continue st1 p l f))"
  shows "splines st1 = splines st"
proof (cases fwd)
  case True
  with assms have s: "traverse_step bm st loop True = Some (Inr (Continue st1 p l f))"
    by simp
  from forward_step_cases [OF s] show ?thesis
    by (simp add: set_entered_def set_exited_def)
next
  case False
  with assms have s: "traverse_step bm st loop False = Some (Inr (Continue st1 p l f))"
    by simp
  from backward_step_cases [OF s] show ?thesis
    by (simp add: set_entered_def set_exited_def)
qed

lemma make_loop_while_frame:
  assumes "make_loop_while bm cfg mids st loop fwd first sp = Some (Inr (st', sp'))"
  shows "splines st' = splines st \<and> set (trace st) \<subseteq> set (trace st')"
  using assms
proof (induction rule: make_loop_while_induct)
  case (Break st loop fwd first sp)
  then show ?case by simp
next
  case (Continue st loop fwd first sp st1 p l f pt st' sp')
  from step_trace [OF Continue(1)] have "set (trace st) \<subseteq> set (trace st1 @ [Point p l f])"
    by auto
  with Continue(3) step_splines [OF Continue(1)] show ?case by auto
qed

lemma make_loop_emitted:
  assumes inv: "\<forall>sp\<in>set (splines st). emitted_from bm cfg mids (trace st) sp"
    and run: "make_loop bm cfg mids st loop fwd = Some (Inr st')"
  shows "\<forall>sp\<in>set (splines st'). emitted_from bm cfg mids (trace st') sp"
proof -
  from run obtain st1 sp1 where
    run1: "make_loop_while bm cfg mids st loop fwd True new_spline = Some (Inr (st1, sp1))"
    and st': "st' = st1\<lparr>splines := splines st1 @ [sp1]\<rparr>"
    by (auto simp: make_loop_def Let_def split: option.splits sum.splits)
  from make_loop_while_emitted [OF run1 emitted_from_new]
  have new: "emitted_from bm cfg mids (trace st1) sp1" .
  from make_loop_while_frame [OF run1]
  have spl: "splines st1 = splines st" and sub: "set (trace st) \<subseteq> set (trace st1)"
    by simp_all
  show ?thesis
    unfolding st' using inv new spl sub
    by (auto intro: emitted_from_mono)
qed

text \<open>A property of the state that every traversal preserves is preserved by the
  scan.\<close>

lemma seed_loop_invariant:
  assumes pres: "\<And>st loop fwd st'. I st \<Longrightarrow>
      make_loop bm cfg mids st loop fwd = Some (Inr st') \<Longrightarrow> I st'"
    and run: "seed_loop bm cfg mids st loop = Some (Inr st')"
    and inv: "I st"
  shows "I st'"
proof (cases "ignorable_loop bm loop")
  case True
  with run inv show ?thesis by (simp add: seed_loop_def)
next
  case False
  obtain st1 where
    first: "(if \<not> loops_exited st loop then make_loop bm cfg mids st loop True
             else Some (Inr st)) = Some (Inr st1)"
    and second: "(if \<not> loops_entered st1 loop then make_loop bm cfg mids st1 loop False
             else Some (Inr st1)) = Some (Inr st')"
    using run False
    by (auto simp: seed_loop_def split: option.splits sum.splits)
  from first inv have "I st1"
    by (auto split: if_splits intro: pres)
  with second show ?thesis
    by (auto split: if_splits intro: pres)
qed

lemma scan_loops_invariant:
  assumes pres: "\<And>st loop fwd st'. I st \<Longrightarrow>
      make_loop bm cfg mids st loop fwd = Some (Inr st') \<Longrightarrow> I st'"
    and run: "scan_loops bm cfg mids st ls = Some (Inr st')"
    and inv: "I st"
  shows "I st'"
  using run inv
proof (induction ls arbitrary: st)
  case Nil
  then show ?case by simp
next
  case (Cons l ls)
  from Cons.prems(1) obtain st1 where
    head: "seed_loop bm cfg mids st l = Some (Inr st1)"
    and tail: "scan_loops bm cfg mids st1 ls = Some (Inr st')"
    by (auto split: option.splits sum.splits)
  from seed_loop_invariant [of I, OF pres head Cons.prems(2)] have "I st1" .
  from Cons.IH [OF tail this] show ?case .
qed

lemma scan_faces_invariant:
  assumes pres: "\<And>st loop fwd st'. I st \<Longrightarrow>
      make_loop bm cfg mids st loop fwd = Some (Inr st') \<Longrightarrow> I st'"
    and run: "scan_faces bm cfg mids st fs = Some (Inr st')"
    and inv: "I st"
  shows "I st'"
  using run inv
proof (induction fs arbitrary: st)
  case Nil
  then show ?case by simp
next
  case (Cons face fs)
  from Cons.prems(1) obtain st1 where
    head: "scan_loops bm cfg mids st face = Some (Inr st1)"
    and tail: "scan_faces bm cfg mids st1 fs = Some (Inr st')"
    by (auto split: option.splits sum.splits)
  from scan_loops_invariant [of I, OF pres head Cons.prems(2)] have "I st1" .
  from Cons.IH [OF tail this] show ?case .
qed

lemma create_bezier_emitted:
  assumes "create_bezier bm twists cfg = Some (Inr st)"
  shows "\<forall>sp\<in>set (splines st).
           emitted_from bm cfg (midpoints_loop bm (edges bm) []) (trace st) sp"
proof -
  from assms have
    scan: "scan_faces bm cfg (midpoints_loop bm (edges bm) []) init_state (faces bm) = Some (Inr st)"
    by (simp add: create_bezier_def Let_def)
  show ?thesis
    by (rule scan_faces_invariant [where I = "\<lambda>st. \<forall>sp\<in>set (splines st).
          emitted_from bm cfg (midpoints_loop bm (edges bm) []) (trace st) sp", OF _ scan])
       (auto intro: make_loop_emitted [rule_format] simp: init_state_def)
qed

section \<open>The control points of a finished run\<close>

lemma strip_aligned_run:
  "create_bezier strip twists aligned_cfg = Some (Inr strip_aligned_final)"
  by (simp add: run_defs example_defs strip_aligned_final_def)

text \<open>
  Claim C7. In \<open>ALIGNED\<close> handle mode every control point that a crossing produces
  carries two handles with \<open>handle_right - position = position - handle_left\<close>, for every
  mesh, direction, crossing angle and crossing strength; and in every spline of a
  finished run the \<open>i\<close>-th handles and the \<open>i\<close>-th position satisfy this equation.
\<close>

theorem handle_symmetry:
  assumes "handle_type cfg = ALIGNED"
  shows "(crossing_point bm cfg midpoints prev_loop loop forward = Inr (position, handles) \<longrightarrow>
           (\<exists>handle_left handle_right. handles = Some (handle_left, handle_right) \<and>
              vec_sub handle_right position = vec_sub position handle_left)) \<and>
         (create_bezier bm twists cfg = Some (Inr st) \<longrightarrow>
           (\<forall>sp\<in>set (splines st). \<forall>i<length (cos_list sp).
              i < length (handle_lefts sp) \<and> i < length (handle_rights sp) \<and>
              vec_sub (handle_rights sp ! i) (cos_list sp ! i)
                = vec_sub (cos_list sp ! i) (handle_lefts sp ! i)))"
proof (intro conjI impI ballI allI)
  assume "crossing_point bm cfg midpoints prev_loop loop forward = Inr (position, handles)"
  from crossing_point_symmetric [OF assms this]
  show "\<exists>handle_left handle_right. handles = Some (handle_left, handle_right) \<and>
          vec_sub handle_right position = vec_sub position handle_left" .
next
  fix sp i
  assume run: "create_bezier bm twists cfg = Some (Inr st)"
    and sp: "sp \<in> set (splines st)" and i: "i < length (cos_list sp)"
  from assms have aligned: "handle_type cfg \<noteq> AUTO" by simp
  from create_bezier_emitted [OF run] sp have
    em: "emitted_from bm cfg (midpoints_loop bm (edges bm) []) (trace st) sp"
    by blast
  from emitted_from_lengths [OF em aligned] i
  show "i < length (handle_lefts sp)" and "i < length (handle_rights sp)"
    by simp_all
  from emitted_fromD [OF em i] aligned obtain p l f where
    "crossing_point bm cfg (midpoints_loop bm (edges bm) []) p l f
       = Inr (cos_list sp ! i, Some (handle_lefts sp ! i, handle_rights sp ! i))"
    by auto
  from crossing_point_symmetric [OF assms this]
  show "vec_sub (handle_rights sp ! i) (cos_list sp ! i)
          = vec_sub (cos_list sp ! i) (handle_lefts sp ! i)"
    by simp
qed

theorem handle_symmetry_witness:
  "handle_type aligned_cfg = ALIGNED \<and>
   crossing_point strip aligned_cfg (midpoints_loop strip (edges strip) []) 8 3 False
     = Inr ((1, 1 / 2, - 1), Some ((1, 3 / 2, - 1), (1, - (1 / 2), - 1))) \<and>
   vec_sub (1, - (1 / 2), - 1) (1, 1 / 2, - 1) = vec_sub (1, 1 / 2, - 1) (1, 3 / 2, - 1) \<and>
   create_bezier strip [] aligned_cfg = Some (Inr strip_aligned_final) \<and>
   hd (splines strip_aligned_final) \<in> set (splines strip_aligned_final) \<and>
   0 < length (cos_list (hd (splines strip_aligned_final))) \<and>
   vec_sub (handle_rights (hd (splines strip_aligned_final)) ! 0)
           (cos_list (hd (splines strip_aligned_final)) ! 0)
     = vec_sub (cos_list (hd (splines strip_aligned_final)) ! 0)
               (handle_lefts (hd (splines strip_aligned_final)) ! 0)"
proof -
  have h1: "handle_type aligned_cfg = ALIGNED"
    by (simp add: aligned_cfg_def)
  have h2: "crossing_point strip aligned_cfg (midpoints_loop strip (edges strip) []) 8 3 False
     = Inr ((1, 1 / 2, - 1), Some ((1, 3 / 2, - 1), (1, - (1 / 2), - 1)))"
    by (simp add: geometry_defs example_defs)
  have h3: "hd (splines strip_aligned_final) \<in> set (splines strip_aligned_final)"
    and h4: "0 < length (cos_list (hd (splines strip_aligned_final)))"
    by (simp_all add: strip_aligned_final_def)
  note inst = handle_symmetry [OF h1, of strip "midpoints_loop strip (edges strip) []" 8 3 False
      "(1, 1 / 2, - 1)" "Some ((1, 3 / 2, - 1), (1, - (1 / 2), - 1))" "[]" strip_aligned_final]
  from inst h2 have
    "vec_sub (1, - (1 / 2), - 1) (1, 1 / 2, - 1) = vec_sub (1, 1 / 2, - 1) (1, 3 / 2, - 1)"
    by auto
  moreover from inst strip_aligned_run [of "[]"] h3 h4 have
    "vec_sub (handle_rights (hd (splines strip_aligned_final)) ! 0)
             (cos_list (hd (splines strip_aligned_final)) ! 0)
       = vec_sub (cos_list (hd (splines strip_aligned_final)) ! 0)
                 (handle_lefts (hd (splines strip_aligned_final)) ! 0)"
    by blast
  ultimately show ?thesis
    using h1 h2 h3 h4 strip_aligned_run [of "[]"] by blast
qed

text \<open>
  Claim C6, as the code has it. Every control point is the midpoint of the edge of the
  landing loop plus \<open>offset\<close> times the normalized sum of the normals at the landing
  loop and at \<open>prev_loop\<close>, where \<open>offset\<close> is \<open>weave_up\<close> when the recomputed direction is
  forward and \<open>weave_down\<close> otherwise; so the displacement is a multiple of the averaged
  normal, and whenever the summed normal is not the zero vector its length is
  \<open>\<bar>offset\<bar>\<close>. Every position in a spline of a finished run is such a point, for a
  crossing that the run made.
\<close>

theorem crossing_point_offset:
  "(crossing_point bm cfg midpoints prev_loop loop forward = Inr (position, handles) \<longrightarrow>
      (let midpoint = midpoints ! loop_edge bm loop;
           summed = vec_add (calc_normal bm loop) (calc_normal bm prev_loop);
           offset = (if forward then weave_up cfg else weave_down cfg)
       in position = vec_add midpoint (vec_scale offset (normalized summed)) \<and>
          vec_sub position midpoint = vec_scale offset (normalized summed) \<and>
          (vec_length summed \<noteq> 0 \<longrightarrow> vec_length (vec_sub position midpoint) = \<bar>offset\<bar>))) \<and>
   (create_bezier bm twists cfg = Some (Inr st) \<longrightarrow>
      (\<forall>sp\<in>set (splines st). \<forall>i<length (cos_list sp).
         \<exists>p l f. Point p l f \<in> set (trace st) \<and> loop_edge bm l < length (edges bm) \<and>
           (let e = edges bm ! loop_edge bm l;
                midpoint = vec_div (vec_add (vert_co bm (fst (vertices e)))
                                            (vert_co bm (snd (vertices e)))) 2;
                summed = vec_add (calc_normal bm l) (calc_normal bm p);
                offset = (if f then weave_up cfg else weave_down cfg)
            in cos_list sp ! i = vec_add midpoint (vec_scale offset (normalized summed)) \<and>
               vec_sub (cos_list sp ! i) midpoint = vec_scale offset (normalized summed) \<and>
               (vec_length summed \<noteq> 0 \<longrightarrow>
                  vec_length (vec_sub (cos_list sp ! i) midpoint) = \<bar>offset\<bar>))))"
proof (intro conjI impI ballI allI)
  assume "crossing_point bm cfg midpoints prev_loop loop forward = Inr (position, handles)"
  from crossing_point_displaced [OF this]
  show "let midpoint = midpoints ! loop_edge bm loop;
            summed = vec_add (calc_normal bm loop) (calc_normal bm prev_loop);
            offset = (if forward then weave_up cfg else weave_down cfg)
        in position = vec_add midpoint (vec_scale offset (normalized summed)) \<and>
           vec_sub position midpoint = vec_scale offset (normalized summed) \<and>
           (vec_length summed \<noteq> 0 \<longrightarrow> vec_length (vec_sub position midpoint) = \<bar>offset\<bar>)" .
next
  fix sp i
  assume run: "create_bezier bm twists cfg = Some (Inr st)"
    and sp: "sp \<in> set (splines st)" and i: "i < length (cos_list sp)"
  from create_bezier_emitted [OF run] sp have
    "emitted_from bm cfg (midpoints_loop bm (edges bm) []) (trace st) sp"
    by blast
  from emitted_fromD [OF this i] obtain p l f h where
    ev: "Point p l f \<in> set (trace st)"
    and cp: "crossing_point bm cfg (midpoints_loop bm (edges bm) []) p l f
       = Inr (cos_list sp ! i, h)"
    by blast
  from crossing_point_position [OF cp] have
    e: "loop_edge bm l < length (edges bm)"
    by (simp add: midpoints_loop_map)
  then have mid: "midpoints_loop bm (edges bm) [] ! loop_edge bm l
      = vec_div (vec_add (vert_co bm (fst (vertices (edges bm ! loop_edge bm l))))
                         (vert_co bm (snd (vertices (edges bm ! loop_edge bm l))))) 2"
    by (simp add: midpoints_loop_map)
  from crossing_point_displaced [OF cp] ev e
  show "\<exists>p l f. Point p l f \<in> set (trace st) \<and> loop_edge bm l < length (edges bm) \<and>
           (let e = edges bm ! loop_edge bm l;
                midpoint = vec_div (vec_add (vert_co bm (fst (vertices e)))
                                            (vert_co bm (snd (vertices e)))) 2;
                summed = vec_add (calc_normal bm l) (calc_normal bm p);
                offset = (if f then weave_up cfg else weave_down cfg)
            in cos_list sp ! i = vec_add midpoint (vec_scale offset (normalized summed)) \<and>
               vec_sub (cos_list sp ! i) midpoint = vec_scale offset (normalized summed) \<and>
               (vec_length summed \<noteq> 0 \<longrightarrow>
                  vec_length (vec_sub (cos_list sp ! i) midpoint) = \<bar>offset\<bar>))"
    unfolding Let_def mid by blast
qed

theorem crossing_point_offset_witness:
  "crossing_point strip auto_cfg (midpoints_loop strip (edges strip) []) 1 5 False
     = Inr ((1 / 2, 1 / 2, - 1), None) \<and>
   vec_length (vec_add (calc_normal strip 5) (calc_normal strip 1)) \<noteq> 0 \<and>
   vec_length (vec_sub (1 / 2, 1 / 2, - 1)
      (midpoints_loop strip (edges strip) [] ! loop_edge strip 5)) = \<bar>weave_down auto_cfg\<bar> \<and>
   create_bezier strip [] auto_cfg = Some (Inr strip_final) \<and>
   hd (splines strip_final) \<in> set (splines strip_final) \<and>
   0 < length (cos_list (hd (splines strip_final))) \<and>
   (\<exists>p l f. Point p l f \<in> set (trace strip_final) \<and> loop_edge strip l < length (edges strip) \<and>
      cos_list (hd (splines strip_final)) ! 0
        = vec_add (vec_div (vec_add (vert_co strip (fst (vertices (edges strip ! loop_edge strip l))))
                                    (vert_co strip (snd (vertices (edges strip ! loop_edge strip l))))) 2)
            (vec_scale (if f then weave_up auto_cfg else weave_down auto_cfg)
               (normalized (vec_add (calc_normal strip l) (calc_normal strip p)))))"
proof -
  have h1: "crossing_point strip auto_cfg (midpoints_loop strip (edges strip) []) 1 5 False
     = Inr ((1 / 2, 1 / 2, - 1), None)"
    by (simp add: geometry_defs example_defs)
  have h2: "vec_length (vec_add (calc_normal strip 5) (calc_normal strip 1)) \<noteq> 0"
    by (simp add: geometry_defs example_defs)
  have h3: "hd (splines strip_final) \<in> set (splines strip_final)"
    and h4: "0 < length (cos_list (hd (splines strip_final)))"
    by (simp_all add: strip_final_def)
  note inst = crossing_point_offset [of strip auto_cfg "midpoints_loop strip (edges strip) []"
      1 5 False "(1 / 2, 1 / 2, - 1)" None "[]" strip_final, unfolded Let_def if_False]
  from inst h1 h2 have
    "vec_length (vec_sub (1 / 2, 1 / 2, - 1)
      (midpoints_loop strip (edges strip) [] ! loop_edge strip 5)) = \<bar>weave_down auto_cfg\<bar>"
    by blast
  moreover from inst strip_run [of "[]"] h3 h4 have
    "\<exists>p l f. Point p l f \<in> set (trace strip_final) \<and> loop_edge strip l < length (edges strip) \<and>
      cos_list (hd (splines strip_final)) ! 0
        = vec_add (vec_div (vec_add (vert_co strip (fst (vertices (edges strip ! loop_edge strip l))))
                                    (vert_co strip (snd (vertices (edges strip ! loop_edge strip l))))) 2)
            (vec_scale (if f then weave_up auto_cfg else weave_down auto_cfg)
               (normalized (vec_add (calc_normal strip l) (calc_normal strip p))))"
    by blast
  ultimately show ?thesis
    using h1 h2 h3 h4 strip_run [of "[]"] by blast
qed

section \<open>The traversal does not depend on the configuration\<close>

lemma same_marks_sym: "same_marks a b \<Longrightarrow> same_marks b a"
  by (simp add: same_marks_def)

lemma same_marks_refl: "same_marks a a"
  by (simp add: same_marks_def)

lemma same_marks_point:
  "same_marks a b \<Longrightarrow>
     same_marks (a\<lparr>trace := trace a @ [Point p l f]\<rparr>) (b\<lparr>trace := trace b @ [Point p l f]\<rparr>)"
  by (simp add: same_marks_def)

lemma same_marks_splines:
  "same_marks a b \<Longrightarrow> same_marks (a\<lparr>splines := s\<rparr>) (b\<lparr>splines := s'\<rparr>)"
  by (simp add: same_marks_def)

lemma same_marks_set:
  "same_marks a b \<Longrightarrow> same_marks (set_exited l a) (set_exited l b)"
  "same_marks a b \<Longrightarrow> same_marks (set_entered l a) (set_entered l b)"
  by (simp_all add: same_marks_def set_exited_def set_entered_def)

lemma traverse_step_same:
  assumes "same_marks st st2"
  shows "case traverse_step bm st loop fwd of
           None \<Rightarrow> traverse_step bm st2 loop fwd = None
         | Some (Inl e) \<Rightarrow> traverse_step bm st2 loop fwd = Some (Inl e)
         | Some (Inr Break) \<Rightarrow> traverse_step bm st2 loop fwd = Some (Inr Break)
         | Some (Inr (Continue a p l f)) \<Rightarrow>
             (\<exists>b. traverse_step bm st2 loop fwd = Some (Inr (Continue b p l f)) \<and>
                  same_marks a b)"
proof -
  have flags: "loops_entered st2 = loops_entered st" "loops_exited st2 = loops_exited st"
    using assms by (simp_all add: same_marks_def)
  have ex: "\<And>l. loops_entered (set_exited l st2) = loops_entered (set_exited l st)"
    and en: "\<And>l. loops_exited (set_entered l st2) = loops_exited (set_entered l st)"
    using assms by (simp_all add: same_marks_def set_exited_def set_entered_def)
  have fw: "\<And>l l'. same_marks (set_entered l' (set_exited l st)) (set_entered l' (set_exited l st2))"
    and bw: "\<And>l l'. same_marks (set_exited l' (set_entered l st)) (set_exited l' (set_entered l st2))"
    using assms by (simp_all add: same_marks_set)
  show ?thesis
  proof (cases fwd)
    case True
    then show ?thesis
      using fw
      by (simp add: traverse_step_def Let_def flags ex split: option.splits list.splits)
  next
    case False
    then show ?thesis
      using bw
      by (simp add: traverse_step_def Let_def flags en split: option.splits prod.splits)
  qed
qed

lemma crossing_point_in_range:
  "loop_edge bm l < length mids \<Longrightarrow> \<exists>pt. crossing_point bm cfg mids p l f = Inr pt"
  by (simp add: crossing_point_def Let_def case_prod_beta del: split_paired_Ex)

lemma crossing_point_out_of_range:
  "\<not> loop_edge bm l < length mids \<Longrightarrow> crossing_point bm cfg mids p l f = Inl IndexError"
  by (simp add: crossing_point_def)

lemma crossing_point_same:
  "crossing_point bm cfg mids p l f = Inl e \<Longrightarrow> crossing_point bm cfg' mids p l f = Inl e"
  "crossing_point bm cfg mids p l f = Inr pt \<Longrightarrow> \<exists>pt'. crossing_point bm cfg' mids p l f = Inr pt'"
proof -
  assume a: "crossing_point bm cfg mids p l f = Inl e"
  show "crossing_point bm cfg' mids p l f = Inl e"
  proof (cases "loop_edge bm l < length mids")
    case True
    from crossing_point_in_range [OF True, of cfg p f] a show ?thesis by simp
  next
    case False
    from crossing_point_out_of_range [OF False, of cfg p f]
      crossing_point_out_of_range [OF False, of cfg' p f] a
    show ?thesis by simp
  qed
next
  assume a: "crossing_point bm cfg mids p l f = Inr pt"
  show "\<exists>pt'. crossing_point bm cfg' mids p l f = Inr pt'"
  proof (cases "loop_edge bm l < length mids")
    case True
    from crossing_point_in_range [OF True] show ?thesis .
  next
    case False
    from crossing_point_out_of_range [OF False, of cfg p f] a show ?thesis by simp
  qed
qed

lemma make_loop_while_same_Some:
  assumes run: "make_loop_while bm cfg mids st loop fwd first sp = Some y"
    and sm: "same_marks st st2"
  shows "\<exists>y'. make_loop_while bm cfg' mids st2 loop fwd first2 sp2 = Some y' \<and>
           (case y of Inl e \<Rightarrow> y' = Inl e
            | Inr r \<Rightarrow> (\<exists>r'. y' = Inr r' \<and> same_marks (fst r) (fst r')))"
proof -
  have "bm = bm \<longrightarrow> cfg = cfg \<longrightarrow> mids = mids \<longrightarrow>
      (\<forall>st2 first2 sp2. same_marks st st2 \<longrightarrow>
         (\<exists>y'. make_loop_while bm cfg' mids st2 loop fwd first2 sp2 = Some y' \<and>
           (case y of Inl e \<Rightarrow> y' = Inl e
            | Inr r \<Rightarrow> (\<exists>r'. y' = Inr r' \<and> same_marks (fst r) (fst r')))))"
  proof (rule make_loop_while.raw_induct [where P = "\<lambda>bm' cfg0 mids' st loop fwd first sp y.
      bm' = bm \<longrightarrow> cfg0 = cfg \<longrightarrow> mids' = mids \<longrightarrow>
      (\<forall>st2 first2 sp2. same_marks st st2 \<longrightarrow>
         (\<exists>y'. make_loop_while bm cfg' mids st2 loop fwd first2 sp2 = Some y' \<and>
           (case y of Inl e \<Rightarrow> y' = Inl e
            | Inr r \<Rightarrow> (\<exists>r'. y' = Inr r' \<and> same_marks (fst r) (fst r')))))", OF _ run],
      goal_cases)
    case (1 g bm' cfg0 mids' st loop fwd first sp y)
    show ?case
    proof (intro impI allI)
      fix st2 first2 sp2
      assume eq: "bm' = bm" "cfg0 = cfg" "mids' = mids" and sm: "same_marks st st2"
      note body = 1(2) [unfolded eq]
      note step2 = traverse_step_same [OF sm, of bm loop fwd]
      show "\<exists>y'. make_loop_while bm cfg' mids st2 loop fwd first2 sp2 = Some y' \<and>
           (case y of Inl e \<Rightarrow> y' = Inl e
            | Inr r \<Rightarrow> (\<exists>r'. y' = Inr r' \<and> same_marks (fst r) (fst r')))"
      proof (cases "traverse_step bm st loop fwd")
        case None
        with body show ?thesis by simp
      next
        case (Some r)
        show ?thesis
        proof (cases r)
          case (Inl e)
          with Some step2 body show ?thesis
            by (subst make_loop_while.simps) auto
        next
          case (Inr sr)
          show ?thesis
          proof (cases sr)
            case Break
            with Some Inr step2 body sm show ?thesis
              by (subst make_loop_while.simps) auto
          next
            case (Continue a p l f)
            with Some Inr step2 obtain b where
              s2: "traverse_step bm st2 loop fwd = Some (Inr (Continue b p l f))"
              and ab: "same_marks a b"
              by auto
            show ?thesis
            proof (cases "crossing_point bm cfg mids p l f")
              case (Inl e)
              with Some Inr Continue body have "y = Inl e" by simp
              with s2 crossing_point_same(1) [OF Inl, of cfg'] show ?thesis
                by (subst make_loop_while.simps) simp
            next
              case pt: (Inr pt)
              from crossing_point_same(2) [OF pt, of cfg'] obtain pt' where
                pt': "crossing_point bm cfg' mids p l f = Inr pt'" ..
              from Some Inr Continue pt body have
                "g bm cfg mids (a\<lparr>trace := trace a @ [Point p l f]\<rparr>) l f False (emit pt first sp)
                   = Some y"
                by simp
              from 1(1) [OF this] same_marks_point [OF ab, of p l f]
              obtain y' where
                "make_loop_while bm cfg' mids (b\<lparr>trace := trace b @ [Point p l f]\<rparr>) l f False
                   (emit pt' first2 sp2) = Some y'"
                and rel: "case y of Inl e \<Rightarrow> y' = Inl e
                   | Inr r \<Rightarrow> (\<exists>r'. y' = Inr r' \<and> same_marks (fst r) (fst r'))"
                by blast
              with s2 pt' have "make_loop_while bm cfg' mids st2 loop fwd first2 sp2 = Some y'"
                by (subst make_loop_while.simps) simp
              with rel show ?thesis by blast
            qed
          qed
        qed
      qed
    qed
  qed
  with sm show ?thesis by blast
qed

lemma make_loop_same:
  assumes sm: "same_marks st st2"
  shows "same_outcome (make_loop bm cfg mids st loop fwd) (make_loop bm cfg' mids st2 loop fwd)"
proof (cases "make_loop_while bm cfg mids st loop fwd True new_spline")
  case None
  have "make_loop_while bm cfg' mids st2 loop fwd True new_spline = None"
  proof (rule ccontr)
    assume "make_loop_while bm cfg' mids st2 loop fwd True new_spline \<noteq> None"
    then obtain y where "make_loop_while bm cfg' mids st2 loop fwd True new_spline = Some y"
      by auto
    from make_loop_while_same_Some [OF this same_marks_sym [OF sm], of cfg True new_spline] None
    show False by simp
  qed
  with None show ?thesis
    by (simp add: make_loop_def)
next
  case (Some y)
  from make_loop_while_same_Some [OF Some sm, of cfg' True new_spline] obtain y' where
    y': "make_loop_while bm cfg' mids st2 loop fwd True new_spline = Some y'"
    and rel: "case y of Inl e \<Rightarrow> y' = Inl e
       | Inr r \<Rightarrow> (\<exists>r'. y' = Inr r' \<and> same_marks (fst r) (fst r'))"
    by blast
  show ?thesis
  proof (cases y)
    case (Inl e)
    with Some y' rel show ?thesis
      by (simp add: make_loop_def)
  next
    case (Inr r)
    with rel obtain r' where r': "y' = Inr r'" "same_marks (fst r) (fst r')" by auto
    with Some y' Inr show ?thesis
      by (cases r; cases r') (simp add: make_loop_def same_marks_splines)
  qed
qed

lemma same_outcome_cases:
  "same_outcome r r' =
     ((r = None \<and> r' = None) \<or> (\<exists>e. r = Some (Inl e) \<and> r' = Some (Inl e)) \<or>
      (\<exists>a b. r = Some (Inr a) \<and> r' = Some (Inr b) \<and> same_marks a b))"
  by (induction r r' rule: same_outcome.induct) auto

lemma same_outcome_bind:
  assumes "same_outcome r r'"
    and "\<And>a b. same_marks a b \<Longrightarrow> same_outcome (k a) (k' b)"
  shows "same_outcome
           (case r of None \<Rightarrow> None | Some (Inl e) \<Rightarrow> Some (Inl e) | Some (Inr a) \<Rightarrow> k a)
           (case r' of None \<Rightarrow> None | Some (Inl e) \<Rightarrow> Some (Inl e) | Some (Inr b) \<Rightarrow> k' b)"
proof -
  from assms(1) consider "r = None" "r' = None"
    | e where "r = Some (Inl e)" "r' = Some (Inl e)"
    | a b where "r = Some (Inr a)" "r' = Some (Inr b)" "same_marks a b"
    unfolding same_outcome_cases by blast
  then show ?thesis
  proof cases
    case 1
    then show ?thesis by simp
  next
    case 2
    then show ?thesis by simp
  next
    case 3
    with assms(2) [OF 3(3)] show ?thesis by simp
  qed
qed

lemma seed_loop_same:
  assumes sm: "same_marks st st2"
  shows "same_outcome (seed_loop bm cfg mids st loop) (seed_loop bm cfg' mids st2 loop)"
proof (cases "ignorable_loop bm loop")
  case True
  with sm show ?thesis by (simp add: seed_loop_def)
next
  case False
  have first: "same_outcome
      (if \<not> loops_exited st loop then make_loop bm cfg mids st loop True else Some (Inr st))
      (if \<not> loops_exited st2 loop then make_loop bm cfg' mids st2 loop True else Some (Inr st2))"
    using sm make_loop_same [OF sm, of bm cfg mids loop True cfg']
    by (simp add: same_marks_def)
  have second: "\<And>a b. same_marks a b \<Longrightarrow> same_outcome
      (if \<not> loops_entered a loop then make_loop bm cfg mids a loop False else Some (Inr a))
      (if \<not> loops_entered b loop then make_loop bm cfg' mids b loop False else Some (Inr b))"
  proof -
    fix a b
    assume ab: "same_marks a b"
    then show "same_outcome
      (if \<not> loops_entered a loop then make_loop bm cfg mids a loop False else Some (Inr a))
      (if \<not> loops_entered b loop then make_loop bm cfg' mids b loop False else Some (Inr b))"
      using make_loop_same [OF ab, of bm cfg mids loop False cfg']
      by (simp add: same_marks_def)
  qed
  from same_outcome_bind [OF first second] False show ?thesis
    by (simp add: seed_loop_def)
qed

lemma scan_loops_same:
  "same_marks st st2 \<Longrightarrow>
     same_outcome (scan_loops bm cfg mids st ls) (scan_loops bm cfg' mids st2 ls)"
proof (induction ls arbitrary: st st2)
  case Nil
  then show ?case by simp
next
  case (Cons l ls)
  from same_outcome_bind [OF seed_loop_same [OF Cons.prems, of bm cfg mids l cfg'],
      of "\<lambda>a. scan_loops bm cfg mids a ls" "\<lambda>b. scan_loops bm cfg' mids b ls"] Cons.IH
  show ?case by simp
qed

lemma scan_faces_same:
  "same_marks st st2 \<Longrightarrow>
     same_outcome (scan_faces bm cfg mids st fs) (scan_faces bm cfg' mids st2 fs)"
proof (induction fs arbitrary: st st2)
  case Nil
  then show ?case by simp
next
  case (Cons face fs)
  from same_outcome_bind [OF scan_loops_same [OF Cons.prems, of bm cfg mids face cfg'],
      of "\<lambda>a. scan_faces bm cfg mids a fs" "\<lambda>b. scan_faces bm cfg' mids b fs"] Cons.IH
  show ?case by simp
qed

lemma create_bezier_same:
  "same_outcome (create_bezier bm twists cfg) (create_bezier bm twists' cfg')"
  by (simp add: create_bezier_def Let_def scan_faces_same same_marks_refl)

lemma same_outcome_trace: "same_outcome r r' \<Longrightarrow> result_trace r = result_trace r'"
  unfolding same_outcome_cases by (auto simp: result_trace_def same_marks_def)

lemma execute_trace_eq:
  "execute_trace (execute bm self)
     = result_trace (create_bezier bm (get_celtic_twists bm) (config.truncate self))"
  by (simp add: execute_trace_def execute_def result_trace_def Let_def
      split: option.splits sum.splits)

section \<open>The operator\<close>

text \<open>
  Claim C8, as the code has it. \<open>execute\<close> validates no parameter. Whether it returns,
  fails or finishes, and every step of the traversal it makes, are the same for any two
  settings of the crossing angle, the crossing strength, the weave offsets, the handle
  type and the thickness; and whenever the spline building finishes, \<open>execute\<close>
  finishes, making the pipe exactly when the thickness is positive.
\<close>

theorem execute_accepts_parameters:
  "execute_trace (execute bm self) = execute_trace (execute bm self') \<and>
   (create_bezier bm (get_celtic_twists bm) (config.truncate self) = Some (Inr curve_obj) \<longrightarrow>
      execute bm self =
        Some (Inr (curve_obj, if thickness self > 0 then Some (thickness self) else None)))"
proof (intro conjI impI)
  from create_bezier_same [of bm "get_celtic_twists bm" "config.truncate self"
      "get_celtic_twists bm" "config.truncate self'"]
  show "execute_trace (execute bm self) = execute_trace (execute bm self')"
    unfolding execute_trace_eq by (rule same_outcome_trace)
next
  assume "create_bezier bm (get_celtic_twists bm) (config.truncate self) = Some (Inr curve_obj)"
  then show "execute bm self =
      Some (Inr (curve_obj, if thickness self > 0 then Some (thickness self) else None))"
    by (simp add: execute_def Let_def)
qed

theorem execute_accepts_parameters_witness:
  "create_bezier strip (get_celtic_twists strip) (config.truncate negative_props)
     = Some (Inr strip_final) \<and>
   execute strip negative_props = Some (Inr (strip_final, None)) \<and>
   execute_trace (execute strip negative_props)
     = execute_trace (execute strip (negative_props\<lparr>crossing_strength := 1, thickness := 1\<rparr>))"
proof -
  have h: "create_bezier strip (get_celtic_twists strip) (config.truncate negative_props)
     = Some (Inr strip_final)"
    by (simp add: run_defs example_defs negative_props_def config.truncate_def strip_final_def)
  have t: "\<not> thickness negative_props > 0"
    by (simp add: negative_props_def)
  note inst = execute_accepts_parameters [of strip negative_props
      "negative_props\<lparr>crossing_strength := 1, thickness := 1\<rparr>" strip_final]
  from inst h t have e: "execute strip negative_props = Some (Inr (strip_final, None))"
    by simp
  from inst have "execute_trace (execute strip negative_props)
     = execute_trace (execute strip (negative_props\<lparr>crossing_strength := 1, thickness := 1\<rparr>))"
    by blast
  with h e show ?thesis by blast
qed

text \<open>
  With a crossing strength of \<open>-1\<close> and a thickness of \<open>-1\<close> the operator is not
  rejected: it runs the whole traversal of the strip and finishes, without a pipe.
\<close>

theorem negative_props_accepted:
  "crossing_strength negative_props < 0 \<and> thickness negative_props < 0 \<and>
   finished_trace (execute strip negative_props)
     = Some (Inr ([Exited 1, Entered 1, Point 1 5 False, Entered 5, Exited 3, Point 3 8 True,
             Exited 8, Entered 8, Point 8 3 False, Entered 3, Exited 5, Point 5 1 True], None))"
  by (simp add: finished_trace_def execute_def run_defs example_defs negative_props_def
      config.truncate_def)


end
